theory Spec2Isabelle
  imports Main "HOL-Library.AList"
begin

section \<open>Python strings\<close>

text \<open>
  A Python \<open>str\<close> is modelled as a \<open>string\<close>; one \<open>char\<close> stands for one code point
  (the Latin-1 range), so \<open>length\<close> is Python's \<open>len\<close>.
\<close>

definition NL :: char where
  "NL = CHR 0x0A"

text \<open>\<open>str.isspace\<close> on one code point below 256.\<close>

definition py_isspace :: "char \<Rightarrow> bool" where
  "py_isspace c =
     (let n = (of_char c :: nat)
      in (9 \<le> n \<and> n \<le> 13) \<or> (28 \<le> n \<and> n \<le> 32) \<or> n = 133 \<or> n = 160)"

text \<open>\<open>s.strip()\<close>: leading and trailing whitespace removed.\<close>

definition strip :: "string \<Rightarrow> string" where
  "strip s = rev (dropWhile py_isspace (rev (dropWhile py_isspace s)))"

text \<open>\<open>s.lower()\<close>, code point by code point.\<close>

definition lower_char :: "char \<Rightarrow> char" where
  "lower_char c =
     (let n = (of_char c :: nat)
      in if (65 \<le> n \<and> n \<le> 90) \<or> (192 \<le> n \<and> n \<le> 222 \<and> n \<noteq> 215)
         then char_of (n + 32) else c)"

definition lower :: "string \<Rightarrow> string" where
  "lower s = map lower_char s"

text \<open>\<open>s.startswith(p)\<close>.\<close>

fun startswith :: "string \<Rightarrow> string \<Rightarrow> bool" where
  "startswith s [] = True"
| "startswith [] (p # ps) = False"
| "startswith (c # cs) (p # ps) = (c = p \<and> startswith cs ps)"

text \<open>\<open>needle in hay\<close> for two strings: \<open>needle\<close> occurs as a substring.\<close>

fun str_contains :: "string \<Rightarrow> string \<Rightarrow> bool" where
  "str_contains [] needle = (needle = [])"
| "str_contains (c # cs) needle = (startswith (c # cs) needle \<or> str_contains cs needle)"

text \<open>\<open>sep.join(parts)\<close>.\<close>

fun join :: "string \<Rightarrow> string list \<Rightarrow> string" where
  "join sep [] = []"
| "join sep [p] = p"
| "join sep (p # q # ps) = p @ sep @ join sep (q # ps)"

text \<open>
  \<open>range(0, n, step)\<close> as the list of its elements; a zero step raises \<open>ValueError\<close>
  (the result is \<open>None\<close>), a negative step gives the empty range since \<open>0 \<le> n\<close>.
\<close>

definition range_from_zero :: "nat \<Rightarrow> int \<Rightarrow> nat list option" where
  "range_from_zero n step =
     (if step = 0 then None
      else if step < 0 then Some []
      else Some (map (\<lambda>k. k * nat step) [0..<(n + nat step - 1) div nat step]))"

section \<open>The gateway: \<open>utils/call_llm.py\<close>\<close>

subsection \<open>Exceptions, JSON values, the cache file\<close>

text \<open>
  The exceptions that can leave a call. \<open>BadRequestError msg\<close> is openai's exception
  with \<open>str(e) = msg\<close>; \<open>ProviderError\<close> is any other exception raised while a request
  to a provider is made or its answer is unpacked; \<open>RequestException\<close> and
  \<open>JSONDecodeError\<close> are those of \<open>requests.get\<close> and \<open>r.json()\<close>.
\<close>

datatype failure =
    BadRequestError string
  | ProviderError string
  | AttributeError
  | TypeError
  | KeyError
  | ValueError
  | RequestException
  | JSONDecodeError

datatype json =
    JNull
  | JBool bool
  | JNumber int
  | JString string
  | JArray "json list"
  | JObject "(string \<times> json) list"

text \<open>
  A value of type \<open>json\<close> is a JSON document as it is written in a file: the members of
  an object in the order of the text, a name possibly more than once. \<open>json.load\<close> turns
  each object into a \<open>dict\<close>, putting the members in one after the other: a name that
  comes again keeps its place and takes the later value. The result is again written as
  a \<open>json\<close>, now with the names of every object distinct; this is the form of every
  \<open>dict\<close> the gateway holds in memory and of everything \<open>json.dump\<close> writes.
\<close>

fun json_load :: "json \<Rightarrow> json" where
  "json_load (JObject kvs) =
     JObject (foldl (\<lambda>d (k, v). AList.update k (json_load v) d) [] kvs)"
| "json_load (JArray xs) = JArray (map json_load xs)"
| "json_load j = j"

text \<open>
  What \<open>os.path.exists(cache_file)\<close> and \<open>json.load\<close> find: no file; a file that
  cannot be opened or parsed (empty, invalid JSON, unreadable); a file holding a JSON
  document.
\<close>

datatype cache_file = Missing | Unreadable | Holds json

text \<open>
  Lines 126-132 and 195-201: \<open>cache = {}\<close>, replaced by the parsed file when it exists
  and loads. The flag tells that the \<open>except\<close> branch ran.
\<close>

definition load_cache :: "cache_file \<Rightarrow> json \<times> bool" where
  "load_cache f =
     (case f of
        Missing \<Rightarrow> (JObject [], False)
      | Unreadable \<Rightarrow> (JObject [], True)
      | Holds j \<Rightarrow> (json_load j, False))"

text \<open>
  \<open>prompt in cache\<close>, for whatever \<open>json.load\<close> returned. The names of a \<open>dict\<close> are
  distinct, so looking a name up finds its one member.
\<close>

definition py_in :: "string \<Rightarrow> json \<Rightarrow> failure + bool" where
  "py_in prompt cache =
     (case cache of
        JObject kvs \<Rightarrow> Inr (map_of kvs prompt \<noteq> None)
      | JArray xs \<Rightarrow> Inr (List.member xs (JString prompt))
      | JString s \<Rightarrow> Inr (str_contains s prompt)
      | _ \<Rightarrow> Inl TypeError)"

text \<open>\<open>cache[prompt]\<close>.\<close>

definition py_getitem :: "json \<Rightarrow> string \<Rightarrow> failure + json" where
  "py_getitem cache prompt =
     (case cache of
        JObject kvs \<Rightarrow> (case map_of kvs prompt of None \<Rightarrow> Inl KeyError | Some v \<Rightarrow> Inr v)
      | _ \<Rightarrow> Inl TypeError)"

text \<open>\<open>cache[prompt] = response_text\<close>; a dict keeps the position of a key it has.\<close>

definition py_setitem :: "json \<Rightarrow> string \<Rightarrow> json \<Rightarrow> failure + json" where
  "py_setitem cache prompt v =
     (case cache of
        JObject kvs \<Rightarrow> Inr (JObject (AList.update prompt v kvs))
      | _ \<Rightarrow> Inl TypeError)"

subsection \<open>The world around a call\<close>

datatype role = System | User

text \<open>
  A request to a provider: \<open>client.chat.completions.create(model, messages)\<close> or
  \<open>client.models.generate_content(model, contents)\<close>.
\<close>

datatype llm_request =
    ChatCompletions string "(role \<times> string) list"
  | GenerateContent string "string list"

text \<open>
  The answer is the text taken from the response (\<open>r.choices[0].message.content\<close>,
  \<open>resp.text\<close>), which may be Python's \<open>None\<close>, or the exception raised on the way.
\<close>

type_synonym llm_reply = "failure + string option"

datatype write_fault = OpenFails | DumpFails

datatype log_event =
    LogPrompt string
  | LogResponse json
  | LogCacheLoadFailed
  | LogCompressing string nat int
  | LogContextRetry
  | LogSaveFailed write_fault

text \<open>
  The state a call works on: the cache file, whether writing it fails (and how), the
  provider's state, the requests sent so far and the log written so far.
\<close>

record 'p world =
  disk :: cache_file
  write_fault :: "write_fault option"
  llm :: 'p
  sent :: "llm_request list"
  log :: "log_event list"

text \<open>
  What the call is given from outside: the environment variables, Python's \<open>int()\<close> on
  a string (\<open>None\<close> when it raises), the provider, and what other writers of the cache
  file do to it between this call's first load and its re-load.
\<close>

record 'p host =
  getenv :: "string \<Rightarrow> string option"
  py_int :: "string \<Rightarrow> int option"
  generate :: "llm_request \<Rightarrow> 'p \<Rightarrow> llm_reply \<times> 'p"
  peers :: "cache_file \<Rightarrow> cache_file"

definition logger :: "log_event \<Rightarrow> 'p world \<Rightarrow> 'p world" where
  "logger e w = w\<lparr>log := log w @ [e]\<rparr>"

text \<open>\<open>os.getenv(name, default)\<close>.\<close>

definition getenv_default :: "'p host \<Rightarrow> string \<Rightarrow> string \<Rightarrow> string" where
  "getenv_default H name d = (case getenv H name of None \<Rightarrow> d | Some v \<Rightarrow> v)"

text \<open>One request: the provider answers and moves on, the request is recorded.\<close>

definition provider_call :: "'p host \<Rightarrow> llm_request \<Rightarrow> 'p world \<Rightarrow> llm_reply \<times> 'p world" where
  "provider_call H rq w =
     (case generate H rq (llm w) of
        (reply, p') \<Rightarrow> (reply, w\<lparr>llm := p', sent := sent w @ [rq]\<rparr>))"

subsection \<open>Limits and compression\<close>

text \<open>Lines 30-43.\<close>

definition get_limit_chars :: "'p host \<Rightarrow> string \<Rightarrow> int" where
  "get_limit_chars H provider_name =
     (case (case getenv H ''LLM_MAX_PROMPT_CHARS'' of
              None \<Rightarrow> None
            | Some env_val \<Rightarrow> if env_val = [] then None else py_int H env_val) of
        Some n \<Rightarrow> n
      | None \<Rightarrow> if provider_name = ''openai'' then 350000 else 1200000)"

text \<open>Lines 45-55.\<close>

definition get_chunk_size_chars :: "'p host \<Rightarrow> string \<Rightarrow> int" where
  "get_chunk_size_chars H provider_name =
     (case (case getenv H ''LLM_CHUNK_SIZE_CHARS'' of
              None \<Rightarrow> None
            | Some env_val \<Rightarrow> if env_val = [] then None else py_int H env_val) of
        Some n \<Rightarrow> n
      | None \<Rightarrow> if provider_name = ''openai'' then 120000 else 300000)"

definition instruction :: string where
  "instruction =
     ''You will compress a large, technical context for downstream analysis.'' @ [NL] @
     ''Requirements:'' @ [NL] @
     ''- Preserve key APIs, function/class names, file paths, and important code lines'' @ [NL] @
     ''- Keep crucial semantics; remove boilerplate and repeated sections'' @ [NL] @
     ''- Output concise plain text (no YAML fences)'' @ [NL]"

text \<open>
  \<open>summarize_chunks_openai\<close> and \<open>summarize_chunks_google\<close> are the same code but for
  the provider name and the shape of the request; the model takes the name as an
  argument.
\<close>

definition compress_request :: "string \<Rightarrow> string \<Rightarrow> string \<Rightarrow> llm_request" where
  "compress_request provider_name model content =
     (if provider_name = ''openai''
      then ChatCompletions model [(System, instruction), (User, content)]
      else GenerateContent model [instruction, content])"

text \<open>Lines 67-76 and 102-108: one request per chunk, the stripped answers collected.\<close>

fun compress_chunks ::
  "'p host \<Rightarrow> string \<Rightarrow> string \<Rightarrow> string list \<Rightarrow> string list \<Rightarrow> 'p world
     \<Rightarrow> (failure + string list) \<times> 'p world" where
  "compress_chunks H provider_name model [] summaries w = (Inr summaries, w)"
| "compress_chunks H provider_name model (chunk # rest) summaries w =
     (case provider_call H
             (compress_request provider_name model (''Compress this chunk:'' @ [NL] @ chunk)) w of
        (Inl e, w') \<Rightarrow> (Inl e, w')
      | (Inr None, w') \<Rightarrow> (Inl AttributeError, w')
      | (Inr (Some t), w') \<Rightarrow>
          compress_chunks H provider_name model rest (summaries @ [strip t]) w')"

text \<open>Lines 79-90 and 110-118: the reduce loop.\<close>

function reduce_loop ::
  "'p host \<Rightarrow> string \<Rightarrow> string \<Rightarrow> int \<Rightarrow> string \<Rightarrow> nat \<Rightarrow> 'p world
     \<Rightarrow> (failure + string) \<times> 'p world" where
  "reduce_loop H provider_name model max_chars combined reduce_round w =
     (if int (length combined) > max_chars \<and> reduce_round < 3
      then (case provider_call H
                   (compress_request provider_name model
                      (''Further compress while preserving technical fidelity:'' @ [NL] @ combined)) w of
              (Inl e, w') \<Rightarrow> (Inl e, w')
            | (Inr None, w') \<Rightarrow> (Inl AttributeError, w')
            | (Inr (Some t), w') \<Rightarrow>
                reduce_loop H provider_name model max_chars (strip t) (reduce_round + 1) w')
      else (Inr combined, w))"
  by pat_completeness auto
termination
  by (relation "measure (\<lambda>(H, provider_name, model, max_chars, combined, reduce_round, w). 3 - reduce_round)")
     auto

declare reduce_loop.simps [simp del]

text \<open>Lines 57-90 and 92-118.\<close>

definition summarize_chunks ::
  "'p host \<Rightarrow> string \<Rightarrow> string \<Rightarrow> string \<Rightarrow> int \<Rightarrow> 'p world \<Rightarrow> (failure + string) \<times> 'p world" where
  "summarize_chunks H provider_name text_in model max_chars w =
     (let chunk_size = get_chunk_size_chars H provider_name
      in case range_from_zero (length text_in) chunk_size of
           None \<Rightarrow> (Inl ValueError, w)
         | Some starts \<Rightarrow>
             (case compress_chunks H provider_name model
                     (map (\<lambda>i. take (nat chunk_size) (drop i text_in)) starts) [] w of
                (Inl e, w') \<Rightarrow> (Inl e, w')
              | (Inr summaries, w') \<Rightarrow>
                  reduce_loop H provider_name model max_chars (join [NL, NL] summaries) 0 w'))"

subsection \<open>The two providers\<close>

text \<open>
  Lines 151-155 and 181-185: a prompt longer than the ceiling is replaced by its
  compression.
\<close>

definition prepare_prompt ::
  "'p host \<Rightarrow> string \<Rightarrow> string \<Rightarrow> int \<Rightarrow> string \<Rightarrow> 'p world \<Rightarrow> (failure + string) \<times> 'p world" where
  "prepare_prompt H provider_name model max_chars prompt w =
     (if int (length prompt) > max_chars
      then summarize_chunks H provider_name prompt model max_chars
             (logger (LogCompressing provider_name (length prompt) max_chars) w)
      else (Inr prompt, w))"

text \<open>Line 164: \<open>"context length" in str(e).lower()\<close>.\<close>

definition context_exceeded :: "string \<Rightarrow> bool" where
  "context_exceeded msg = str_contains (lower msg) ''context length''"

text \<open>Lines 141-173.\<close>

definition call_openai :: "'p host \<Rightarrow> string \<Rightarrow> 'p world \<Rightarrow> llm_reply \<times> 'p world" where
  "call_openai H prompt w =
     (let model = getenv_default H ''OPENAI_MODEL'' ''gpt-4o-mini'';
          max_chars = get_limit_chars H ''openai''
      in case prepare_prompt H ''openai'' model max_chars prompt w of
           (Inl e, w1) \<Rightarrow> (Inl e, w1)
         | (Inr effective_prompt, w1) \<Rightarrow>
             (case provider_call H (ChatCompletions model [(User, effective_prompt)]) w1 of
                (Inr response_text, w2) \<Rightarrow> (Inr response_text, w2)
              | (Inl (BadRequestError msg), w2) \<Rightarrow>
                  if context_exceeded msg
                  then (case summarize_chunks H ''openai'' effective_prompt model (max_chars div 2)
                               (logger LogContextRetry w2) of
                          (Inl e, w3) \<Rightarrow> (Inl e, w3)
                        | (Inr effective_prompt', w3) \<Rightarrow>
                            provider_call H (ChatCompletions model [(User, effective_prompt')]) w3)
                  else (Inl (BadRequestError msg), w2)
              | (Inl e, w2) \<Rightarrow> (Inl e, w2)))"

text \<open>Lines 175-187.\<close>

definition call_google :: "'p host \<Rightarrow> string \<Rightarrow> 'p world \<Rightarrow> llm_reply \<times> 'p world" where
  "call_google H prompt w =
     (let model = getenv_default H ''GEMINI_MODEL'' ''gemini-2.5-flash'';
          max_chars = get_limit_chars H ''google''
      in case prepare_prompt H ''google'' model max_chars prompt w of
           (Inl e, w1) \<Rightarrow> (Inl e, w1)
         | (Inr effective_prompt, w1) \<Rightarrow>
             provider_call H (GenerateContent model [effective_prompt]) w1)"

text \<open>Lines 139-187: the provider is chosen by \<open>LLM_PROVIDER\<close>.\<close>

definition ask_provider :: "'p host \<Rightarrow> string \<Rightarrow> 'p world \<Rightarrow> llm_reply \<times> 'p world" where
  "ask_provider H prompt w =
     (if lower (getenv_default H ''LLM_PROVIDER'' ''google'') = ''openai''
      then call_openai H prompt w
      else call_google H prompt w)"

subsection \<open>The cache around the provider\<close>

text \<open>Python's \<open>None\<close> or a \<open>str\<close>, as the value the call returns and stores.\<close>

definition json_of :: "string option \<Rightarrow> json" where
  "json_of t = (case t of None \<Rightarrow> JNull | Some s \<Rightarrow> JString s)"

text \<open>Lines 124-137: \<open>Some v\<close> is the early return of a cached value.\<close>

definition cache_lookup :: "string \<Rightarrow> 'p world \<Rightarrow> (failure + json option) \<times> 'p world" where
  "cache_lookup prompt w =
     (case load_cache (disk w) of
        (cache, load_failed) \<Rightarrow>
          (let w1 = (if load_failed then logger LogCacheLoadFailed w else w)
           in case py_in prompt cache of
                Inl e \<Rightarrow> (Inl e, w1)
              | Inr False \<Rightarrow> (Inr None, w1)
              | Inr True \<Rightarrow>
                  (case py_getitem cache prompt of
                     Inl e \<Rightarrow> (Inl e, w1)
                   | Inr v \<Rightarrow> (Inr (Some v), logger (LogResponse v) w1))))"

text \<open>Lines 205-209: the write, whose failure is logged and nothing more.\<close>

definition save_cache :: "json \<Rightarrow> 'p world \<Rightarrow> 'p world" where
  "save_cache cache w =
     (case write_fault w of
        None \<Rightarrow> w\<lparr>disk := Holds cache\<rparr>
      | Some OpenFails \<Rightarrow> logger (LogSaveFailed OpenFails) w
      | Some DumpFails \<Rightarrow> logger (LogSaveFailed DumpFails) (w\<lparr>disk := Unreadable\<rparr>))"

text \<open>
  Lines 193-211. The file is loaded again, as other writers have left it by now, the
  entry is set and the file written.
\<close>

definition cache_store :: "'p host \<Rightarrow> string \<Rightarrow> json \<Rightarrow> 'p world \<Rightarrow> (failure + json) \<times> 'p world" where
  "cache_store H prompt response_text w =
     (let w1 = w\<lparr>disk := peers H (disk w)\<rparr>
      in case load_cache (disk w1) of
           (cache, load_failed) \<Rightarrow>
             (case py_setitem cache prompt response_text of
                Inl e \<Rightarrow> (Inl e, w1)
              | Inr cache' \<Rightarrow> (Inr response_text, save_cache cache' w1)))"

text \<open>
  Lines 189-211: what follows the provider. Its exception leaves the call; its answer
  is logged, stored when caching is on, and returned.
\<close>

definition respond ::
  "'p host \<Rightarrow> string \<Rightarrow> bool \<Rightarrow> llm_reply \<times> 'p world \<Rightarrow> (failure + json) \<times> 'p world" where
  "respond H prompt use_cache outcome =
     (case outcome of
        (Inl e, w2) \<Rightarrow> (Inl e, w2)
      | (Inr response_text, w2) \<Rightarrow>
          (let w3 = logger (LogResponse (json_of response_text)) w2
           in if use_cache
              then cache_store H prompt (json_of response_text) w3
              else (Inr (json_of response_text), w3)))"

text \<open>Lines 29-211.\<close>

definition call_llm :: "'p host \<Rightarrow> string \<Rightarrow> bool \<Rightarrow> 'p world \<Rightarrow> (failure + json) \<times> 'p world" where
  "call_llm H prompt use_cache w0 =
     (let w = logger (LogPrompt prompt) w0
      in case (if use_cache then cache_lookup prompt w else (Inr None, w)) of
           (Inl e, w1) \<Rightarrow> (Inl e, w1)
         | (Inr (Some cached), w1) \<Rightarrow> (Inr cached, w1)
         | (Inr None, w1) \<Rightarrow> respond H prompt use_cache (ask_provider H prompt w1))"

subsection \<open>Steps that talk to the provider only\<close>

text \<open>
  A step is steady when its result and its effect depend on the provider's state alone:
  it appends requests and log entries, moves the provider on, and neither reads nor
  changes the cache file.
\<close>

definition steady :: "('p world \<Rightarrow> 'a \<times> 'p world) \<Rightarrow> bool" where
  "steady f \<longleftrightarrow>
     (\<exists>F. \<forall>w. f w =
        (case F (llm w) of
           (r, p', rqs, lgs) \<Rightarrow> (r, w\<lparr>llm := p', sent := sent w @ rqs, log := log w @ lgs\<rparr>)))"

subsection \<open>Observing a run\<close>

text \<open>The name under which line 140 selects the provider and its limits.\<close>

definition provider_of :: "'p host \<Rightarrow> string" where
  "provider_of H =
     (if lower (getenv_default H ''LLM_PROVIDER'' ''google'') = ''openai'' then ''openai'' else ''google'')"

text \<open>The model name the chosen branch reads (lines 150 and 180).\<close>

definition model_of :: "'p host \<Rightarrow> string" where
  "model_of H =
     (if provider_of H = ''openai'' then getenv_default H ''OPENAI_MODEL'' ''gpt-4o-mini''
      else getenv_default H ''GEMINI_MODEL'' ''gemini-2.5-flash'')"

text \<open>The three kinds of request a call sends (lines 69-75, 82-88, 157-160 and 186).\<close>

definition chunk_request :: "'p host \<Rightarrow> string \<Rightarrow> llm_request" where
  "chunk_request H chunk =
     compress_request (provider_of H) (model_of H) (''Compress this chunk:'' @ [NL] @ chunk)"

definition further_request :: "'p host \<Rightarrow> string \<Rightarrow> llm_request" where
  "further_request H combined =
     compress_request (provider_of H) (model_of H)
       (''Further compress while preserving technical fidelity:'' @ [NL] @ combined)"

definition plain_request :: "'p host \<Rightarrow> string \<Rightarrow> llm_request" where
  "plain_request H effective_prompt =
     (if provider_of H = ''openai'' then ChatCompletions (model_of H) [(User, effective_prompt)]
      else GenerateContent (model_of H) [effective_prompt])"

text \<open>\<open>text[i : i + n]\<close> for \<open>i\<close> in \<open>range(0, len(text), n)\<close>.\<close>

definition slices :: "nat \<Rightarrow> string \<Rightarrow> string list" where
  "slices n s = map (\<lambda>k. take n (drop (k * n) s)) [0..<(length s + n - 1) div n]"

text \<open>A request that carries the prompt itself, with no compression instruction.\<close>

definition is_plain :: "llm_request \<Rightarrow> bool" where
  "is_plain rq =
     (case rq of
        ChatCompletions model messages \<Rightarrow> (case messages of [(User, c)] \<Rightarrow> True | _ \<Rightarrow> False)
      | GenerateContent model contents \<Rightarrow> length contents = 1)"

text \<open>Lines 162-164: a \<open>BadRequestError\<close> whose text mentions the context length.\<close>

definition is_context_rejection :: "failure \<Rightarrow> bool" where
  "is_context_rejection x = (case x of BadRequestError msg \<Rightarrow> context_exceeded msg | _ \<Rightarrow> False)"

text \<open>A step that sends compression requests only.\<close>

definition only_compress :: "('p world \<Rightarrow> 'a \<times> 'p world) \<Rightarrow> bool" where
  "only_compress f \<longleftrightarrow>
     (\<forall>w. \<exists>more. sent (snd (f w)) = sent w @ more \<and> filter is_plain more = [])"

section \<open>The GitLab crawler: \<open>utils/crawl_gitlab_files.py\<close>\<close>

subsection \<open>Arguments, library functions, the network\<close>













subsection \<open>Helpers\<close>







subsection \<open>The three phases\<close>






subsection \<open>The crawler\<close>




section \<open>The pipeline: \<open>flow.py\<close>\<close>

datatype stage =
    FetchRepo
  | IdentifyAbstractionsMap
  | IdentifyAbstractionsReduce
  | AnalyzeRelationships
  | OrderChapters
  | WriteChapters
  | CombineTutorial

text \<open>
  A node object: its class, the \<open>max_retries\<close> and \<open>wait\<close> it was built with (\<open>None\<close>
  for the class's defaults) and its \<open>successors\<close> dict from action to node.
  Objects live in a store and are named by their position in it.
\<close>

record node =
  kind :: stage
  retry_wait :: "(nat \<times> nat) option"
  successors :: "(string \<times> nat) list"

type_synonym store = "node list"

definition new_node :: "stage \<Rightarrow> (nat \<times> nat) option \<Rightarrow> store \<Rightarrow> nat \<times> store" where
  "new_node k args h = (length h, h @ [\<lparr>kind = k, retry_wait = args, successors = []\<rparr>])"

text \<open>
  \<open>a >> b\<close> is pocketflow's \<open>a.next(b)\<close>: \<open>a.successors["default"] = b\<close>.
\<close>

definition rshift :: "nat \<Rightarrow> nat \<Rightarrow> store \<Rightarrow> store" where
  "rshift a b h =
     h[a := (h ! a)\<lparr>successors := AList.update ''default'' b (successors (h ! a))\<rparr>]"

record flow =
  start :: nat

text \<open>Lines 14-40.\<close>

definition create_tutorial_flow :: "store \<Rightarrow> flow \<times> store" where
  "create_tutorial_flow h0 =
     (case new_node FetchRepo None h0 of (fetch_repo, h1) \<Rightarrow>
      case new_node IdentifyAbstractionsMap (Some (3, 10)) h1 of (identify_abstractions_map, h2) \<Rightarrow>
      case new_node IdentifyAbstractionsReduce (Some (5, 20)) h2 of (identify_abstractions_reduce, h3) \<Rightarrow>
      case new_node AnalyzeRelationships (Some (5, 20)) h3 of (analyze_relationships, h4) \<Rightarrow>
      case new_node OrderChapters (Some (5, 20)) h4 of (order_chapters, h5) \<Rightarrow>
      case new_node WriteChapters (Some (5, 20)) h5 of (write_chapters, h6) \<Rightarrow>
      case new_node CombineTutorial None h6 of (combine_tutorial, h7) \<Rightarrow>
        (\<lparr>start = fetch_repo\<rparr>,
         rshift write_chapters combine_tutorial
           (rshift order_chapters write_chapters
             (rshift analyze_relationships order_chapters
               (rshift identify_abstractions_reduce analyze_relationships
                 (rshift identify_abstractions_map identify_abstractions_reduce
                   (rshift fetch_repo identify_abstractions_map h7)))))))"

text \<open>The edges of a store: (class of the source, action, class of the target).\<close>

definition edges :: "store \<Rightarrow> (stage \<times> string \<times> stage) list" where
  "edges h = concat (map (\<lambda>n. map (\<lambda>(a, j). (kind n, a, kind (h ! j))) (successors n)) h)"


section \<open>Sample surroundings\<close>




text \<open>
  Surroundings for the gateway: an environment given as a list of variables, \<open>int()\<close>
  on plain decimal digits, and a provider that answers its n-th request with the n-th
  entry of a script and with a fixed answer once the script is used up. Nobody else
  writes the cache file.
\<close>

fun digits_value :: "string \<Rightarrow> nat \<Rightarrow> nat option" where
  "digits_value [] acc = Some acc"
| "digits_value (c # cs) acc =
     (let n = (of_char c :: nat)
      in if 48 \<le> n \<and> n \<le> 57 then digits_value cs (10 * acc + (n - 48)) else None)"

definition sample_int :: "string \<Rightarrow> int option" where
  "sample_int s = (if s = [] then None else map_option int (digits_value s 0))"

definition scripted_host :: "(string \<times> string) list \<Rightarrow> llm_reply list \<Rightarrow> llm_reply \<Rightarrow> nat host" where
  "scripted_host env script fallback =
     \<lparr>getenv = map_of env,
      py_int = sample_int,
      generate = (\<lambda>rq n. (if n < length script then script ! n else fallback, Suc n)),
      peers = (\<lambda>d. d)\<rparr>"

definition sample_world :: "nat world" where
  "sample_world = \<lparr>disk = Missing, write_fault = None, llm = 0, sent = [], log = []\<rparr>"

text \<open>
  Three providers: one whose limits are small and whose answers shrink, one whose
  answers never shrink, and an openai provider that rejects the first request for its
  context length.
\<close>

definition compressing_host :: "nat host" where
  "compressing_host =
     scripted_host [(''LLM_MAX_PROMPT_CHARS'', ''5''), (''LLM_CHUNK_SIZE_CHARS'', ''4'')]
       [Inr (Some '' s1 ''), Inr (Some ''s2''), Inr (Some ''s''), Inr (Some ''answer'')]
       (Inl (ProviderError ''offline''))"

definition verbose_host :: "nat host" where
  "verbose_host = scripted_host [(''LLM_MAX_PROMPT_CHARS'', ''2'')] [] (Inr (Some ''xxxx''))"

definition openai_host :: "nat host" where
  "openai_host =
     scripted_host [(''LLM_PROVIDER'', ''OpenAI'')]
       [Inl (BadRequestError ''Maximum Context Length exceeded''), Inr (Some ''sum''),
        Inr (Some ''answer'')]
       (Inl (ProviderError ''offline''))"

text \<open>
  The first of these again, with another writer of the cache file at work: whatever
  the file holds when the call re-loads it, a member \<open>late\<close> has been added meanwhile.
\<close>

definition shared_host :: "nat host" where
  "shared_host =
     compressing_host
       \<lparr>peers := (\<lambda>d. case d of
                     Holds (JObject kvs) \<Rightarrow> Holds (JObject (kvs @ [(''late'', JString ''theirs'')]))
                   | _ \<Rightarrow> Holds (JObject [(''late'', JString ''theirs'')]))\<rparr>"

section \<open>The pipeline's stages\<close>

text \<open>
  C6. The flow built by \<open>create_tutorial_flow\<close> (in a fresh store) has the seven
  stages, starts at \<open>FetchRepo\<close>, and its edges are exactly the six default
  transitions fetch-repo, identify-abstractions map, identify-abstractions reduce,
  analyze-relationships, order-chapters, write-chapters, combine.
\<close>

theorem tutorial_flow_is_the_fixed_sequence:
  "edges (snd (create_tutorial_flow [])) =
     [(FetchRepo, ''default'', IdentifyAbstractionsMap),
      (IdentifyAbstractionsMap, ''default'', IdentifyAbstractionsReduce),
      (IdentifyAbstractionsReduce, ''default'', AnalyzeRelationships),
      (AnalyzeRelationships, ''default'', OrderChapters),
      (OrderChapters, ''default'', WriteChapters),
      (WriteChapters, ''default'', CombineTutorial)]
   \<and> map kind (snd (create_tutorial_flow [])) =
       [FetchRepo, IdentifyAbstractionsMap, IdentifyAbstractionsReduce, AnalyzeRelationships,
        OrderChapters, WriteChapters, CombineTutorial]
   \<and> kind (snd (create_tutorial_flow []) ! start (fst (create_tutorial_flow []))) = FetchRepo"
  by (simp add: create_tutorial_flow_def new_node_def rshift_def edges_def)

section \<open>The crawler's pattern filter\<close>






section \<open>The crawler's listing\<close>












section \<open>The crawler's size ceiling\<close>


















section \<open>The gateway's provider steps\<close>

lemma steadyI:
  "(\<And>w. f w = (case F (llm w) of
           (r, p', rqs, lgs) \<Rightarrow> (r, w\<lparr>llm := p', sent := sent w @ rqs, log := log w @ lgs\<rparr>)))
   \<Longrightarrow> steady f"
  unfolding steady_def by blast

lemma steady_return: "steady (\<lambda>w. (x, w))"
  by (rule steadyI [where F = "\<lambda>p. (x, p, [], [])"]) simp

lemma steady_logger: "steady (\<lambda>w. (x, logger e w))"
  by (rule steadyI [where F = "\<lambda>p. (x, p, [], [e])"]) (simp add: logger_def)

lemma steady_provider_call: "steady (provider_call H rq)"
  by (rule steadyI [where F = "\<lambda>p. (fst (generate H rq p), snd (generate H rq p), [rq], [])"])
     (simp add: provider_call_def split: prod.splits)

lemma steady_bind:
  assumes f: "steady f" and g: "\<And>a. steady (g a)"
  shows "steady (\<lambda>w. case f w of (a, w') \<Rightarrow> g a w')"
proof -
  obtain F where F: "\<And>w. f w =
        (case F (llm w) of
           (r, p', rqs, lgs) \<Rightarrow> (r, w\<lparr>llm := p', sent := sent w @ rqs, log := log w @ lgs\<rparr>))"
    using f unfolding steady_def by blast
  have "\<forall>a. \<exists>G. \<forall>w. g a w =
        (case G (llm w) of
           (r, p', rqs, lgs) \<Rightarrow> (r, w\<lparr>llm := p', sent := sent w @ rqs, log := log w @ lgs\<rparr>))"
    using g unfolding steady_def by blast
  then obtain G where G: "\<And>a w. g a w =
        (case G a (llm w) of
           (r, p', rqs, lgs) \<Rightarrow> (r, w\<lparr>llm := p', sent := sent w @ rqs, log := log w @ lgs\<rparr>))"
    using choice [of "\<lambda>a G. \<forall>w. g a w =
        (case G (llm w) of
           (r, p', rqs, lgs) \<Rightarrow> (r, w\<lparr>llm := p', sent := sent w @ rqs, log := log w @ lgs\<rparr>))"]
    by blast
  show ?thesis
    by (rule steadyI [where F = "\<lambda>p. case F p of (a, p1, q1, l1) \<Rightarrow>
                                    (case G a p1 of (r, p2, q2, l2) \<Rightarrow> (r, p2, q1 @ q2, l1 @ l2))"])
       (simp add: F G split: prod.splits)
qed

lemma steady_cong: "steady f \<Longrightarrow> (\<And>w. g w = f w) \<Longrightarrow> steady g"
  unfolding steady_def by simp


lemma steady_compress_chunks: "steady (compress_chunks H pn model chunks summaries)"
proof (induction chunks arbitrary: summaries)
  case Nil
  show ?case using steady_return [of "Inr summaries"] by (rule steady_cong) simp
next
  case (Cons chunk rest)
  let ?g = "\<lambda>a. case a of
              Inl e \<Rightarrow> (\<lambda>w'. (Inl e, w'))
            | Inr None \<Rightarrow> (\<lambda>w'. (Inl AttributeError, w'))
            | Inr (Some t) \<Rightarrow> compress_chunks H pn model rest (summaries @ [strip t])"
  have g: "\<And>a. steady (?g a)"
  proof -
    fix a show "steady (?g a)"
    proof (cases a)
      case (Inl e)
      then show ?thesis by (simp add: steady_return)
    next
      case (Inr t)
      then show ?thesis by (cases t) (simp_all add: steady_return Cons.IH)
    qed
  qed
  have eq: "\<And>w. compress_chunks H pn model (chunk # rest) summaries w =
          (case provider_call H
                  (compress_request pn model (''Compress this chunk:'' @ [NL] @ chunk)) w of
             (a, w') \<Rightarrow> ?g a w')"
    by (simp split: prod.split sum.split option.split)
  show ?case
    by (rule steady_cong [OF steady_bind [OF steady_provider_call, of ?g, OF g]]) (rule eq)
qed

lemma reduce_loop_done:
  "\<not> (int (length combined) > max_chars \<and> reduce_round < 3) \<Longrightarrow>
     reduce_loop H pn model max_chars combined reduce_round w = (Inr combined, w)"
  by (subst reduce_loop.simps) (rule if_not_P)

lemma reduce_loop_step:
  "int (length combined) > max_chars \<Longrightarrow> reduce_round < 3 \<Longrightarrow>
     reduce_loop H pn model max_chars combined reduce_round w =
       (case provider_call H
               (compress_request pn model
                  (''Further compress while preserving technical fidelity:'' @ [NL] @ combined)) w of
          (Inl e, w') \<Rightarrow> (Inl e, w')
        | (Inr None, w') \<Rightarrow> (Inl AttributeError, w')
        | (Inr (Some t), w') \<Rightarrow>
            reduce_loop H pn model max_chars (strip t) (reduce_round + 1) w')"
  by (subst reduce_loop.simps) simp

lemma steady_reduce_loop: "steady (reduce_loop H pn model max_chars combined reduce_round)"
proof (induction "3 - reduce_round" arbitrary: combined reduce_round)
  case 0
  then have "\<not> (int (length combined) > max_chars \<and> reduce_round < 3)" by simp
  then have "reduce_loop H pn model max_chars combined reduce_round = (\<lambda>w. (Inr combined, w))"
    by (simp add: reduce_loop_done fun_eq_iff)
  then show ?case by (simp add: steady_return)
next
  case (Suc n)
  show ?case
  proof (cases "int (length combined) > max_chars \<and> reduce_round < 3")
    case False
    then have "reduce_loop H pn model max_chars combined reduce_round = (\<lambda>w. (Inr combined, w))"
      by (simp add: reduce_loop_done fun_eq_iff)
    then show ?thesis by (simp add: steady_return)
  next
    case True
    let ?g = "\<lambda>a. case a of
              Inl e \<Rightarrow> (\<lambda>w'. (Inl e, w'))
            | Inr None \<Rightarrow> (\<lambda>w'. (Inl AttributeError, w'))
            | Inr (Some t) \<Rightarrow> reduce_loop H pn model max_chars (strip t) (reduce_round + 1)"
    have ih: "\<And>c. steady (reduce_loop H pn model max_chars c (reduce_round + 1))"
      using Suc.hyps(1) [of "reduce_round + 1"] Suc.hyps(2) by simp
    have g: "\<And>a. steady (?g a)"
    proof -
      fix a show "steady (?g a)"
      proof (cases a)
        case (Inl e)
        then show ?thesis by (simp add: steady_return)
      next
        case (Inr t)
        then show ?thesis by (cases t) (simp_all add: steady_return ih del: One_nat_def)
      qed
    qed
    have eq: "\<And>w. reduce_loop H pn model max_chars combined reduce_round w =
            (case provider_call H
                   (compress_request pn model
                      (''Further compress while preserving technical fidelity:'' @ [NL] @ combined)) w of
               (a, w') \<Rightarrow> ?g a w')"
      using True
      by (simp add: reduce_loop_step split: prod.split sum.split option.split)
    show ?thesis
      by (rule steady_cong [OF steady_bind [OF steady_provider_call, of ?g, OF g]]) (rule eq)
  qed
qed

lemma steady_summarize_chunks: "steady (summarize_chunks H pn text_in model max_chars)"
proof (cases "range_from_zero (length text_in) (get_chunk_size_chars H pn)")
  case None
  then have "summarize_chunks H pn text_in model max_chars = (\<lambda>w. (Inl ValueError, w))"
    by (simp add: summarize_chunks_def fun_eq_iff)
  then show ?thesis by (simp add: steady_return)
next
  case (Some starts)
  let ?g = "\<lambda>a. case a of
              Inl e \<Rightarrow> (\<lambda>w'. (Inl e, w'))
            | Inr summaries \<Rightarrow> reduce_loop H pn model max_chars (join [NL, NL] summaries) 0"
  have g: "\<And>a. steady (?g a)"
    by (auto split: sum.splits intro: steady_return steady_reduce_loop)
  have eq: "\<And>w. summarize_chunks H pn text_in model max_chars w =
          (case compress_chunks H pn model
                  (map (\<lambda>i. take (nat (get_chunk_size_chars H pn)) (drop i text_in)) starts) [] w of
             (a, w') \<Rightarrow> ?g a w')"
    by (simp add: summarize_chunks_def Some Let_def split: prod.split sum.split)
  show ?thesis
    by (rule steady_cong [OF steady_bind [OF steady_compress_chunks, of ?g, OF g]]) (rule eq)
qed

lemma steady_prepare_prompt: "steady (prepare_prompt H pn model max_chars prompt)"
proof (cases "int (length prompt) > max_chars")
  case False
  then show ?thesis
    by (intro steady_cong [OF steady_return [of "Inr prompt"]]) (simp add: prepare_prompt_def)
next
  case True
  have eq: "\<And>w. prepare_prompt H pn model max_chars prompt w =
          (case ((), logger (LogCompressing pn (length prompt) max_chars) w) of
             (a, w') \<Rightarrow> summarize_chunks H pn prompt model max_chars w')"
    by (simp add: prepare_prompt_def True)
  show ?thesis
    by (rule steady_cong
          [OF steady_bind [OF steady_logger [of "()" "LogCompressing pn (length prompt) max_chars"],
                           of "\<lambda>a. summarize_chunks H pn prompt model max_chars",
                           OF steady_summarize_chunks]])
       (rule eq)
qed

lemma steady_call_google: "steady (call_google H prompt)"
proof -
  let ?model = "getenv_default H ''GEMINI_MODEL'' ''gemini-2.5-flash''"
  let ?g = "\<lambda>a. case a of
              Inl e \<Rightarrow> (\<lambda>w'. (Inl e, w'))
            | Inr effective_prompt \<Rightarrow> provider_call H (GenerateContent ?model [effective_prompt])"
  have g: "\<And>a. steady (?g a)"
    by (auto split: sum.splits intro: steady_return steady_provider_call)
  have eq: "\<And>w. call_google H prompt w =
          (case prepare_prompt H ''google'' ?model (get_limit_chars H ''google'') prompt w of
             (a, w') \<Rightarrow> ?g a w')"
    by (simp add: call_google_def Let_def split: prod.split sum.split)
  show ?thesis
    by (rule steady_cong [OF steady_bind [OF steady_prepare_prompt, of ?g, OF g]]) (rule eq)
qed


lemma steady_after_logger: "steady f \<Longrightarrow> steady (\<lambda>w. f (logger e w))"
  using steady_bind [OF steady_logger [of "()" e], of "\<lambda>a. f"] by simp

lemma steady_call_openai: "steady (call_openai H prompt)"
proof -
  let ?model = "getenv_default H ''OPENAI_MODEL'' ''gpt-4o-mini''"
  let ?max = "get_limit_chars H ''openai''"
  let ?again = "\<lambda>eff a. case a of
              Inl e \<Rightarrow> (\<lambda>w'. (Inl e, w'))
            | Inr effective_prompt' \<Rightarrow>
                provider_call H (ChatCompletions ?model [(User, effective_prompt')])"
  let ?retry = "\<lambda>eff w2. case summarize_chunks H ''openai'' eff ?model (?max div 2)
                                  (logger LogContextRetry w2) of
                             (a, w3) \<Rightarrow> ?again eff a w3"
  let ?h = "\<lambda>eff a. case a of
              Inr response_text \<Rightarrow> (\<lambda>w2. (Inr response_text, w2))
            | Inl (BadRequestError msg) \<Rightarrow>
                if context_exceeded msg then ?retry eff
                else (\<lambda>w2. (Inl (BadRequestError msg), w2))
            | Inl e \<Rightarrow> (\<lambda>w2. (Inl e, w2))"
  let ?g = "\<lambda>a. case a of
              Inl e \<Rightarrow> (\<lambda>w'. (Inl e, w'))
            | Inr eff \<Rightarrow>
                (\<lambda>w1. case provider_call H (ChatCompletions ?model [(User, eff)]) w1 of
                         (a, w2) \<Rightarrow> ?h eff a w2)"
  have again: "\<And>eff a. steady (?again eff a)"
    by (simp add: steady_return steady_provider_call split: sum.split)
  have retry: "\<And>eff. steady (?retry eff)"
    by (rule steady_bind [OF steady_after_logger [OF steady_summarize_chunks] again])
  have h: "\<And>eff a. steady (?h eff a)"
  proof -
    fix eff a show "steady (?h eff a)"
    proof (cases a)
      case (Inr t)
      then show ?thesis by (simp add: steady_return)
    next
      case (Inl e)
      then show ?thesis using retry [of eff] by (cases e) (simp_all add: steady_return)
    qed
  qed
  have g: "\<And>a. steady (?g a)"
  proof -
    fix a show "steady (?g a)"
    proof (cases a)
      case (Inl e)
      then show ?thesis by (simp add: steady_return)
    next
      case (Inr eff)
      then show ?thesis
        using steady_bind [OF steady_provider_call [of H "ChatCompletions ?model [(User, eff)]"],
                           of "?h eff", OF h]
        by simp
    qed
  qed
  have eq: "\<And>w. call_openai H prompt w =
          (case prepare_prompt H ''openai'' ?model ?max prompt w of (a, w') \<Rightarrow> ?g a w')"
    by (simp add: call_openai_def Let_def split: prod.split sum.split failure.split)
  show ?thesis
    by (rule steady_cong [OF steady_bind [OF steady_prepare_prompt, of ?g, OF g]]) (rule eq)
qed

lemma steady_ask_provider: "steady (ask_provider H prompt)"
proof (cases "lower (getenv_default H ''LLM_PROVIDER'' ''google'') = ''openai''")
  case True
  then have "ask_provider H prompt = call_openai H prompt" by (simp add: ask_provider_def fun_eq_iff)
  then show ?thesis by (simp add: steady_call_openai)
next
  case False
  then have "ask_provider H prompt = call_google H prompt" by (simp add: ask_provider_def fun_eq_iff)
  then show ?thesis by (simp add: steady_call_google)
qed

lemma steady_frame:
  assumes "steady f"
  shows "disk (snd (f w)) = disk w" and "write_fault (snd (f w)) = write_fault w"
    and "\<exists>rqs. sent (snd (f w)) = sent w @ rqs"
    and "\<exists>lgs. log (snd (f w)) = log w @ lgs"
proof -
  obtain F where F: "\<And>w. f w =
        (case F (llm w) of
           (r, p', rqs, lgs) \<Rightarrow> (r, w\<lparr>llm := p', sent := sent w @ rqs, log := log w @ lgs\<rparr>))"
    using assms unfolding steady_def by blast
  obtain r p' rqs lgs where v: "F (llm w) = (r, p', rqs, lgs)" by (cases "F (llm w)")
  have a: "f w = (r, w\<lparr>llm := p', sent := sent w @ rqs, log := log w @ lgs\<rparr>)"
    by (simp add: F [of w] v)
  show "disk (snd (f w)) = disk w" by (simp add: a)
  show "write_fault (snd (f w)) = write_fault w" by (simp add: a)
  show "\<exists>rqs. sent (snd (f w)) = sent w @ rqs" by (simp add: a)
  show "\<exists>lgs. log (snd (f w)) = log w @ lgs" by (simp add: a)
qed

lemma steady_disk_blind:
  assumes "steady f"
  shows "f (w\<lparr>disk := d\<rparr>) = (fst (f w), (snd (f w))\<lparr>disk := d\<rparr>)"
proof -
  obtain F where F: "\<And>w. f w =
        (case F (llm w) of
           (r, p', rqs, lgs) \<Rightarrow> (r, w\<lparr>llm := p', sent := sent w @ rqs, log := log w @ lgs\<rparr>))"
    using assms unfolding steady_def by blast
  obtain r p' rqs lgs where v: "F (llm w) = (r, p', rqs, lgs)" by (cases "F (llm w)")
  show ?thesis by (simp add: F [of w] F [of "w\<lparr>disk := d\<rparr>"] v)
qed

lemma steady_same_llm:
  assumes "steady f" and "llm w' = llm w"
  shows "fst (f w') = fst (f w)" and "llm (snd (f w')) = llm (snd (f w))"
    and "\<exists>rqs. sent (snd (f w)) = sent w @ rqs \<and> sent (snd (f w')) = sent w' @ rqs"
    and "\<exists>lgs. log (snd (f w)) = log w @ lgs \<and> log (snd (f w')) = log w' @ lgs"
proof -
  obtain F where F: "\<And>w. f w =
        (case F (llm w) of
           (r, p', rqs, lgs) \<Rightarrow> (r, w\<lparr>llm := p', sent := sent w @ rqs, log := log w @ lgs\<rparr>))"
    using assms(1) unfolding steady_def by blast
  obtain r p' rqs lgs where v: "F (llm w) = (r, p', rqs, lgs)" by (cases "F (llm w)")
  have a: "f w = (r, w\<lparr>llm := p', sent := sent w @ rqs, log := log w @ lgs\<rparr>)"
    by (simp add: F [of w] v)
  have b: "f w' = (r, w'\<lparr>llm := p', sent := sent w' @ rqs, log := log w' @ lgs\<rparr>)"
    by (simp add: F [of w'] assms(2) v)
  show "fst (f w') = fst (f w)" by (simp add: a b)
  show "llm (snd (f w')) = llm (snd (f w))" by (simp add: a b)
  show "\<exists>rqs. sent (snd (f w)) = sent w @ rqs \<and> sent (snd (f w')) = sent w' @ rqs"
    by (simp add: a b)
  show "\<exists>lgs. log (snd (f w)) = log w @ lgs \<and> log (snd (f w')) = log w' @ lgs"
    by (simp add: a b)
qed

section \<open>The gateway's cache\<close>

subsection \<open>What \<open>json.load\<close> makes of an object\<close>

lemma dict_lookup:
  "map_of (foldl (\<lambda>d (k, v). AList.update k (f v) d) d0 kvs) k =
     (case map_of (rev kvs) k of None \<Rightarrow> map_of d0 k | Some v \<Rightarrow> Some (f v))"
proof (induction kvs arbitrary: d0)
  case Nil
  show ?case by simp
next
  case (Cons kv kvs)
  obtain k0 v0 where kv: "kv = (k0, v0)" by (cases kv)
  show ?case
    by (cases "map_of (rev kvs) k") (simp_all add: kv Cons.IH update_conv map_add_def)
qed

lemma dict_distinct:
  "distinct (map fst d0) \<Longrightarrow>
     distinct (map fst (foldl (\<lambda>d (k, v). AList.update k (f v) d) d0 kvs))"
proof (induction kvs arbitrary: d0)
  case Nil
  then show ?case by simp
next
  case (Cons kv kvs)
  obtain k0 v0 where kv: "kv = (k0, v0)" by (cases kv)
  show ?case
    using Cons.IH [of "AList.update k0 (f v0) d0"] Cons.prems
    by (simp add: kv distinct_update)
qed

lemma json_load_object:
  assumes "json_load j = JObject kvs'"
  shows "\<exists>kvs. j = JObject kvs"
    and "distinct (map fst kvs')"
    and "\<And>kvs k. j = JObject kvs \<Longrightarrow> map_of kvs' k = map_option json_load (map_of (rev kvs) k)"
proof -
  obtain kvs0 where j: "j = JObject kvs0"
    using assms by (cases j) simp_all
  then show "\<exists>kvs. j = JObject kvs" by blast
  have k': "kvs' = foldl (\<lambda>d (k, v). AList.update k (json_load v) d) [] kvs0"
    using assms j by simp
  show "distinct (map fst kvs')"
    unfolding k' by (rule dict_distinct) simp
  show "\<And>kvs k. j = JObject kvs \<Longrightarrow> map_of kvs' k = map_option json_load (map_of (rev kvs) k)"
    unfolding k' using j by (simp add: dict_lookup split: option.split)
qed

lemma map_of_rev_none: "map_of (rev kvs) k = None \<longleftrightarrow> map_of kvs k = None"
  by (simp add: map_of_eq_None_iff)

lemma map_of_rev_distinct: "distinct (map fst kvs) \<Longrightarrow> map_of (rev kvs) k = map_of kvs k"
proof (cases "map_of kvs k")
  case None
  then show ?thesis by (simp add: map_of_rev_none)
next
  case (Some v)
  assume d: "distinct (map fst kvs)"
  then have "distinct (map fst (rev kvs))" by (simp add: rev_map [symmetric])
  moreover have "(k, v) \<in> set (rev kvs)" using Some d by simp
  ultimately show ?thesis using Some by simp
qed

lemma json_load_json_of: "json_load (json_of t) = json_of t"
  by (cases t) (simp_all add: json_of_def)

lemma load_cache_object:
  assumes "fst (load_cache f) = JObject kvs'"
  shows "distinct (map fst kvs')"
proof (cases f)
  case (Holds j)
  then have "json_load j = JObject kvs'" using assms by (simp add: load_cache_def)
  then show ?thesis by (rule json_load_object(2))
next
  case Missing
  then show ?thesis using assms by (auto simp: load_cache_def)
next
  case Unreadable
  then show ?thesis using assms by (auto simp: load_cache_def)
qed

subsection \<open>Hits and misses\<close>

lemma cache_lookup_world:
  "disk (snd (cache_lookup P w)) = disk w"
  "write_fault (snd (cache_lookup P w)) = write_fault w"
  "llm (snd (cache_lookup P w)) = llm w"
  "sent (snd (cache_lookup P w)) = sent w"
  by (auto simp: cache_lookup_def logger_def Let_def split: prod.splits sum.splits bool.splits)

lemma cache_lookup_hit:
  assumes "cache_lookup P w = (Inr (Some v), w')"
  shows "\<exists>kvs v0. disk w = Holds (JObject kvs) \<and> map_of (rev kvs) P = Some v0 \<and> v = json_load v0"
    and "w' = logger (LogResponse v) w"
proof -
  obtain cache failed where lc: "load_cache (disk w) = (cache, failed)"
    by (cases "load_cache (disk w)")
  obtain kvs' where c: "cache = JObject kvs'" and g: "map_of kvs' P = Some v"
    using assms lc
    by (auto simp: cache_lookup_def py_in_def py_getitem_def Let_def
             split: json.splits option.splits if_splits sum.splits bool.splits)
  show "w' = logger (LogResponse v) w"
    using assms lc c g
    by (auto simp: cache_lookup_def load_cache_def py_in_def py_getitem_def Let_def
             split: cache_file.splits if_splits)
  obtain j where d: "disk w = Holds j" and l: "json_load j = JObject kvs'"
    using lc c g by (cases "disk w") (auto simp: load_cache_def)
  obtain kvs where j: "j = JObject kvs" using json_load_object(1) [OF l] by blast
  have "map_option json_load (map_of (rev kvs) P) = Some v"
    using json_load_object(3) [OF l j, of P] g by simp
  then obtain v0 where "map_of (rev kvs) P = Some v0" "v = json_load v0" by auto
  with d j show "\<exists>kvs v0. disk w = Holds (JObject kvs) \<and> map_of (rev kvs) P = Some v0 \<and> v = json_load v0"
    by blast
qed

lemma cache_lookup_entry:
  assumes "disk w = Holds (JObject kvs)" "map_of (rev kvs) P = Some v"
  shows "cache_lookup P w = (Inr (Some (json_load v)), logger (LogResponse (json_load v)) w)"
proof -
  obtain kvs' where l: "json_load (JObject kvs) = JObject kvs'" by simp
  have "map_of kvs' P = Some (json_load v)"
    using json_load_object(3) [OF l refl, of P] assms(2) by simp
  then show ?thesis
    using assms(1) l by (simp add: cache_lookup_def load_cache_def py_in_def py_getitem_def)
qed

lemma call_llm_hit:
  assumes "disk w = Holds (JObject kvs)" "map_of (rev kvs) P = Some v"
  shows "call_llm H P True w =
           (Inr (json_load v), w\<lparr>log := log w @ [LogPrompt P, LogResponse (json_load v)]\<rparr>)"
proof -
  have "disk (logger (LogPrompt P) w) = Holds (JObject kvs)"
    using assms(1) by (simp add: logger_def)
  from cache_lookup_entry [OF this assms(2)] show ?thesis
    by (simp add: call_llm_def logger_def)
qed

lemma cache_store_written:
  assumes "cache_store H P r w3 = (Inr x, w1)" "write_fault w3 = None"
  shows "x = r \<and> (\<exists>kvs. fst (load_cache (peers H (disk w3))) = JObject kvs \<and>
           disk w1 = Holds (JObject (AList.update P r kvs)))"
  using assms
  by (auto simp: cache_store_def py_setitem_def save_cache_def Let_def
           split: prod.splits json.splits)


lemma logger_world:
  "disk (logger e w) = disk w" "write_fault (logger e w) = write_fault w"
  "llm (logger e w) = llm w" "sent (logger e w) = sent w" "log (logger e w) = log w @ [e]"
  by (simp_all add: logger_def)

lemma call_llm_success_leaves_entry:
  assumes run: "call_llm H P True w = (Inr r, w1)" and ok: "write_fault w = None"
  shows "\<exists>kvs v0. disk w1 = Holds (JObject kvs) \<and> map_of (rev kvs) P = Some v0 \<and> json_load v0 = r"
proof -
  let ?w = "logger (LogPrompt P) w"
  obtain x wa where lk: "cache_lookup P ?w = (x, wa)" by (cases "cache_lookup P ?w")
  have wa: "write_fault wa = None"
    using cache_lookup_world(2) [of P ?w] lk ok by (simp add: logger_world)
  show ?thesis
  proof (cases x)
    case (Inl e)
    with run lk show ?thesis by (simp add: call_llm_def)
  next
    case (Inr c)
    show ?thesis
    proof (cases c)
      case (Some v)
      with run lk Inr have "r = v" "w1 = wa" by (simp_all add: call_llm_def)
      moreover from cache_lookup_hit [of P ?w v wa] lk Inr Some
      have "\<exists>kvs v0. disk ?w = Holds (JObject kvs) \<and> map_of (rev kvs) P = Some v0 \<and> v = json_load v0"
        and "wa = logger (LogResponse v) ?w" by simp_all
      ultimately show ?thesis by (auto simp: logger_world)
    next
      case None
      obtain y w2 where ap: "ask_provider H P wa = (y, w2)" by (cases "ask_provider H P wa")
      have rs: "respond H P True (y, w2) = (Inr r, w1)"
        using run lk Inr None ap by (simp add: call_llm_def)
      then obtain t where y: "y = Inr t" by (cases y) (simp_all add: respond_def)
      let ?w3 = "logger (LogResponse (json_of t)) w2"
      have st: "cache_store H P (json_of t) ?w3 = (Inr r, w1)"
        using rs y by (simp add: respond_def)
      have "write_fault w2 = None"
        using steady_frame(2) [OF steady_ask_provider, of H P wa] ap wa by simp
      then have "write_fault ?w3 = None" by (simp add: logger_world)
      from cache_store_written [OF st this]
      obtain kvs where r: "r = json_of t"
        and ld: "fst (load_cache (peers H (disk ?w3))) = JObject kvs"
        and d1: "disk w1 = Holds (JObject (AList.update P (json_of t) kvs))"
        by blast
      have "distinct (map fst (AList.update P (json_of t) kvs))"
        using load_cache_object [OF ld] by (rule distinct_update)
      then have "map_of (rev (AList.update P (json_of t) kvs)) P = Some (json_of t)"
        by (simp add: map_of_rev_distinct update_conv)
      with r d1 json_load_json_of [of t] show ?thesis by blast
    qed
  qed
qed

text \<open>
  C1, as amended. When the cache file holds an object with a member named exactly by
  the prompt, a call with caching on returns the value \<open>json.load\<close> gives that member
  (the last one, should the file repeat the name), sends no request and leaves provider
  and file as they were (only the log grows). And when a first call with caching on
  returned a response and its cache write did not fail, a second call for the same
  prompt returns the identical response whatever the provider would do, network
  disabled included.
\<close>

theorem cached_prompt_is_served_from_cache:
  "(disk w = Holds (JObject kvs) \<and> map_of (rev kvs) P = Some v \<longrightarrow>
      call_llm H P True w =
        (Inr (json_load v), w\<lparr>log := log w @ [LogPrompt P, LogResponse (json_load v)]\<rparr>))
   \<and> (call_llm H P True w = (Inr r, w1) \<and> write_fault w = None \<longrightarrow>
      call_llm H' P True w1 = (Inr r, w1\<lparr>log := log w1 @ [LogPrompt P, LogResponse r]\<rparr>))"
proof (intro conjI impI)
  assume "disk w = Holds (JObject kvs) \<and> map_of (rev kvs) P = Some v"
  then show "call_llm H P True w =
        (Inr (json_load v), w\<lparr>log := log w @ [LogPrompt P, LogResponse (json_load v)]\<rparr>)"
    using call_llm_hit by blast
next
  assume a: "call_llm H P True w = (Inr r, w1) \<and> write_fault w = None"
  then obtain kvs' v0 where e: "disk w1 = Holds (JObject kvs')" "map_of (rev kvs') P = Some v0"
    and v0: "json_load v0 = r"
    using call_llm_success_leaves_entry by blast
  show "call_llm H' P True w1 = (Inr r, w1\<lparr>log := log w1 @ [LogPrompt P, LogResponse r]\<rparr>)"
    using call_llm_hit [OF e, of H'] v0 by simp
qed


lemmas gateway_defs =
  call_llm_def cache_lookup_def load_cache_def py_in_def py_getitem_def py_setitem_def
  respond_def ask_provider_def call_google_def call_openai_def prepare_prompt_def
  get_limit_chars_def get_chunk_size_chars_def getenv_default_def provider_call_def
  logger_def cache_store_def save_cache_def json_of_def scripted_host_def sample_world_def
  sample_int_def lower_def lower_char_def Let_def

lemma sample_first_call:
  "call_llm (scripted_host [] [Inr (Some ''pong'')] (Inl (ProviderError ''offline'')))
       ''ping'' True sample_world =
     (Inr (JString ''pong''),
      \<lparr>disk = Holds (JObject [(''ping'', JString ''pong'')]), write_fault = None, llm = 1,
       sent = [GenerateContent ''gemini-2.5-flash'' [''ping'']],
       log = [LogPrompt ''ping'', LogResponse (JString ''pong'')]\<rparr>)"
  by (simp add: gateway_defs)

theorem cached_prompt_is_served_from_cache_witness:
  "call_llm (scripted_host [] [] (Inl (ProviderError ''offline''))) ''ping'' True
       (sample_world\<lparr>disk := Holds (JObject [(''ping'', JString ''stale''), (''pong'', JNull),
                                                (''ping'', JString ''fresh'')])\<rparr>) =
     (Inr (JString ''fresh''),
      \<lparr>disk = Holds (JObject [(''ping'', JString ''stale''), (''pong'', JNull),
                              (''ping'', JString ''fresh'')]),
       write_fault = None, llm = 0, sent = [],
       log = [LogPrompt ''ping'', LogResponse (JString ''fresh'')]\<rparr>)
   \<and> call_llm (scripted_host [] [] (Inl (ProviderError ''offline''))) ''ping'' True
       \<lparr>disk = Holds (JObject [(''ping'', JString ''pong'')]), write_fault = None, llm = 1,
        sent = [GenerateContent ''gemini-2.5-flash'' [''ping'']],
        log = [LogPrompt ''ping'', LogResponse (JString ''pong'')]\<rparr> =
     (Inr (JString ''pong''),
      \<lparr>disk = Holds (JObject [(''ping'', JString ''pong'')]), write_fault = None, llm = 1,
       sent = [GenerateContent ''gemini-2.5-flash'' [''ping'']],
       log = [LogPrompt ''ping'', LogResponse (JString ''pong''),
              LogPrompt ''ping'', LogResponse (JString ''pong'')]\<rparr>)
   \<and> write_fault sample_world = None"
  using sample_first_call
    cached_prompt_is_served_from_cache
      [of "sample_world\<lparr>disk := Holds (JObject [(''ping'', JString ''stale''), (''pong'', JNull),
                                                  (''ping'', JString ''fresh'')])\<rparr>"
          "[(''ping'', JString ''stale''), (''pong'', JNull), (''ping'', JString ''fresh'')]"
          "''ping''" "JString ''fresh''"
          "scripted_host [] [] (Inl (ProviderError ''offline''))"]
    cached_prompt_is_served_from_cache
      [of sample_world "[]" "''ping''" JNull
          "scripted_host [] [Inr (Some ''pong'')] (Inl (ProviderError ''offline''))"
          "JString ''pong''"
          "\<lparr>disk = Holds (JObject [(''ping'', JString ''pong'')]), write_fault = None, llm = 1,
             sent = [GenerateContent ''gemini-2.5-flash'' [''ping'']],
             log = [LogPrompt ''ping'', LogResponse (JString ''pong'')]\<rparr>"
          "scripted_host [] [] (Inl (ProviderError ''offline''))"]
  by (simp add: sample_world_def)

text \<open>
  The claim as stated fails when the first call's cache write fails: the response is
  returned, nothing is stored, and the second call, network disabled, raises.
\<close>

theorem second_call_after_failed_write_counterexample:
  "fst (call_llm (scripted_host [] [Inr (Some ''pong'')] (Inl (ProviderError ''offline'')))
          ''ping'' True (sample_world\<lparr>write_fault := Some OpenFails\<rparr>)) = Inr (JString ''pong'')
   \<and> fst (call_llm (scripted_host [] [] (Inl (ProviderError ''offline''))) ''ping'' True
          (snd (call_llm (scripted_host [] [Inr (Some ''pong'')] (Inl (ProviderError ''offline'')))
                  ''ping'' True (sample_world\<lparr>write_fault := Some OpenFails\<rparr>))))
       = Inl (ProviderError ''offline'')"
  by (simp add: gateway_defs)


lemma provider_call_sent: "sent (snd (provider_call H rq w)) = sent w @ [rq]"
  by (simp add: provider_call_def split: prod.splits)

lemma call_google_sent:
  assumes "call_google H P w = (Inr t, w2)"
  shows "\<exists>pre rq. sent w2 = sent w @ pre @ [rq]"
proof -
  let ?model = "getenv_default H ''GEMINI_MODEL'' ''gemini-2.5-flash''"
  obtain a w1 where pp: "prepare_prompt H ''google'' ?model (get_limit_chars H ''google'') P w = (a, w1)"
    by (cases "prepare_prompt H ''google'' ?model (get_limit_chars H ''google'') P w")
  obtain pre where pre: "sent w1 = sent w @ pre"
    using steady_frame(3) [OF steady_prepare_prompt, of H "''google''" ?model "get_limit_chars H ''google''" P w] pp
    by auto
  obtain eff where a: "a = Inr eff"
    using assms pp by (cases a) (simp_all add: call_google_def Let_def)
  have "w2 = snd (provider_call H (GenerateContent ?model [eff]) w1)"
    using assms pp a by (simp add: call_google_def Let_def)
  then show ?thesis using pre by (simp add: provider_call_sent)
qed

lemma call_openai_sent:
  assumes "call_openai H P w = (Inr t, w2)"
  shows "\<exists>pre rq. sent w2 = sent w @ pre @ [rq]"
proof -
  let ?model = "getenv_default H ''OPENAI_MODEL'' ''gpt-4o-mini''"
  let ?max = "get_limit_chars H ''openai''"
  obtain a w1 where pp: "prepare_prompt H ''openai'' ?model ?max P w = (a, w1)"
    by (cases "prepare_prompt H ''openai'' ?model ?max P w")
  obtain pre where pre: "sent w1 = sent w @ pre"
    using steady_frame(3) [OF steady_prepare_prompt, of H "''openai''" ?model ?max P w] pp
    by auto
  obtain eff where a: "a = Inr eff"
    using assms pp by (cases a) (simp_all add: call_openai_def Let_def)
  obtain b wb where pc: "provider_call H (ChatCompletions ?model [(User, eff)]) w1 = (b, wb)"
    by (cases "provider_call H (ChatCompletions ?model [(User, eff)]) w1")
  have wb: "sent wb = sent w @ pre @ [ChatCompletions ?model [(User, eff)]]"
    using provider_call_sent [of H "ChatCompletions ?model [(User, eff)]" w1] pc pre by simp
  show ?thesis
  proof (cases b)
    case (Inr x)
    then have "w2 = wb" using assms pp a pc by (simp add: call_openai_def Let_def)
    then show ?thesis using wb by blast
  next
    case (Inl e)
    have notbad: "\<And>msg. e = BadRequestError msg \<Longrightarrow> context_exceeded msg"
      using assms pp a pc Inl by (auto simp: call_openai_def Let_def split: if_splits)
    obtain msg where e: "e = BadRequestError msg"
      using assms pp a pc Inl by (cases e) (simp_all add: call_openai_def Let_def)
    have ce: "context_exceeded msg" using notbad e by simp
    obtain c wc where sm: "summarize_chunks H ''openai'' eff ?model (?max div 2)
                             (logger LogContextRetry wb) = (c, wc)"
      by (cases "summarize_chunks H ''openai'' eff ?model (?max div 2) (logger LogContextRetry wb)")
    obtain mid where mid: "sent wc = sent wb @ mid"
      using steady_frame(3) [OF steady_summarize_chunks, of H "''openai''" eff ?model "?max div 2"
                               "logger LogContextRetry wb"] sm
      by (auto simp: logger_world)
    obtain eff' where c: "c = Inr eff'"
      using assms pp a pc Inl e ce sm by (cases c) (simp_all add: call_openai_def Let_def)
    have "w2 = snd (provider_call H (ChatCompletions ?model [(User, eff')]) wc)"
      using assms pp a pc Inl e ce sm c by (simp add: call_openai_def Let_def)
    then have "sent w2 = sent w @ (pre @ [ChatCompletions ?model [(User, eff)]] @ mid)
                 @ [ChatCompletions ?model [(User, eff')]]"
      using mid wb by (simp add: provider_call_sent)
    then show ?thesis by blast
  qed
qed

lemma ask_provider_sent:
  assumes "ask_provider H P w = (Inr t, w2)"
  shows "sent w2 \<noteq> sent w"
proof -
  have "\<exists>pre rq. sent w2 = sent w @ pre @ [rq]"
    using assms call_openai_sent call_google_sent
    by (auto simp: ask_provider_def split: if_splits)
  then show ?thesis by auto
qed

text \<open>
  C9. With caching off the call does not look at the cache file and does not change
  it: whatever the file holds, an entry for the prompt included, the outcome is the
  provider's, the file is afterwards what it was, and every value returned comes from
  a request that was sent.
\<close>

theorem uncached_call_ignores_cache_file:
  "call_llm H P False (w\<lparr>disk := d\<rparr>) =
     (case ask_provider H P (logger (LogPrompt P) w) of
        (Inl e, w2) \<Rightarrow> (Inl e, w2\<lparr>disk := d\<rparr>)
      | (Inr t, w2) \<Rightarrow> (Inr (json_of t), (logger (LogResponse (json_of t)) w2)\<lparr>disk := d\<rparr>))
   \<and> disk (snd (call_llm H P False w)) = disk w
   \<and> (\<forall>v. fst (call_llm H P False w) = Inr v \<longrightarrow> sent (snd (call_llm H P False w)) \<noteq> sent w)"
proof (intro conjI allI impI)
  have l: "logger (LogPrompt P) (w\<lparr>disk := d\<rparr>) = (logger (LogPrompt P) w)\<lparr>disk := d\<rparr>"
    by (simp add: logger_def)
  show "call_llm H P False (w\<lparr>disk := d\<rparr>) =
     (case ask_provider H P (logger (LogPrompt P) w) of
        (Inl e, w2) \<Rightarrow> (Inl e, w2\<lparr>disk := d\<rparr>)
      | (Inr t, w2) \<Rightarrow> (Inr (json_of t), (logger (LogResponse (json_of t)) w2)\<lparr>disk := d\<rparr>))"
    unfolding call_llm_def Let_def l
    by (simp add: steady_disk_blind [OF steady_ask_provider] respond_def logger_def
          split: prod.split sum.split)
next
  obtain y w2 where ap: "ask_provider H P (logger (LogPrompt P) w) = (y, w2)"
    by (cases "ask_provider H P (logger (LogPrompt P) w)")
  have "disk w2 = disk w"
    using steady_frame(1) [OF steady_ask_provider, of H P "logger (LogPrompt P) w"] ap
    by (simp add: logger_world)
  then show "disk (snd (call_llm H P False w)) = disk w"
    using ap by (cases y) (simp_all add: call_llm_def respond_def logger_world)
next
  fix v assume r: "fst (call_llm H P False w) = Inr v"
  obtain y w2 where ap: "ask_provider H P (logger (LogPrompt P) w) = (y, w2)"
    by (cases "ask_provider H P (logger (LogPrompt P) w)")
  obtain t where y: "y = Inr t"
    using r ap by (cases y) (simp_all add: call_llm_def respond_def)
  have "sent w2 \<noteq> sent w"
    using ask_provider_sent [of H P "logger (LogPrompt P) w" t w2] ap y by (simp add: logger_world)
  then show "sent (snd (call_llm H P False w)) \<noteq> sent w"
    using ap y by (simp add: call_llm_def respond_def logger_world)
qed


theorem uncached_call_ignores_cache_file_witness:
  "call_llm (scripted_host [] [Inr (Some ''pong'')] (Inl (ProviderError ''offline''))) ''ping'' False
       (sample_world\<lparr>disk := Holds (JObject [(''ping'', JString ''old'')])\<rparr>) =
     (Inr (JString ''pong''),
      \<lparr>disk = Holds (JObject [(''ping'', JString ''old'')]), write_fault = None, llm = 1,
       sent = [GenerateContent ''gemini-2.5-flash'' [''ping'']],
       log = [LogPrompt ''ping'', LogResponse (JString ''pong'')]\<rparr>)
   \<and> sent (snd (call_llm (scripted_host [] [Inr (Some ''pong'')] (Inl (ProviderError ''offline'')))
                  ''ping'' False sample_world)) \<noteq> sent sample_world"
proof -
  have v: "fst (call_llm (scripted_host [] [Inr (Some ''pong'')] (Inl (ProviderError ''offline'')))
                  ''ping'' False sample_world) = Inr (JString ''pong'')"
    by (simp add: gateway_defs)
  show ?thesis
    using v uncached_call_ignores_cache_file
      [where H = "scripted_host [] [Inr (Some ''pong'')] (Inl (ProviderError ''offline''))"
         and P = "''ping''" and w = sample_world
         and d = "Holds (JObject [(''ping'', JString ''old'')])"]
    by (simp add: gateway_defs)
qed

lemma call_llm_miss:
  assumes "cache_lookup P (logger (LogPrompt P) w) = (Inr None, wa)"
  shows "call_llm H P True w = respond H P True (ask_provider H P wa)"
  using assms by (simp add: call_llm_def)

lemma cache_lookup_cases:
  "(\<exists>e wa. cache_lookup P w = (Inl e, wa)) \<or>
   (\<exists>v. cache_lookup P w = (Inr (Some v), logger (LogResponse v) w)) \<or>
   (\<exists>wa. cache_lookup P w = (Inr None, wa) \<and> llm wa = llm w \<and> disk wa = disk w \<and>
          write_fault wa = write_fault w \<and> sent wa = sent w)"
proof -
  obtain x wa where lk: "cache_lookup P w = (x, wa)" by (cases "cache_lookup P w")
  show ?thesis
  proof (cases x)
    case (Inl e)
    with lk show ?thesis by blast
  next
    case (Inr c)
    show ?thesis
    proof (cases c)
      case None
      with lk Inr cache_lookup_world [of P w] show ?thesis by simp
    next
      case (Some v)
      with lk Inr cache_lookup_hit(2) [of P w v wa] show ?thesis by simp
    qed
  qed
qed

text \<open>
  C5. A successful call with caching on either was served from the cache (and wrote
  nothing), or it asked the provider; then the value returned is the provider's raw
  answer, and the file written is made from the file as it is at that moment, after
  what other writers did to it since the call began: when that file holds an object,
  the file written holds the \<open>dict\<close> loaded from it with the original prompt set to the
  raw answer, so every member under another name is still there with its value; when
  that file is missing or unreadable, the file written holds the one new member. This
  is so whether or not the prompt was compressed on its way to the provider. A failing
  write leaves the file of that moment (or an unreadable one) behind.
\<close>

theorem stored_entry_is_original_prompt_and_raw_response:
  assumes run: "call_llm H P True w = (Inr r, w1)"
  shows "(\<exists>kvs v. disk w = Holds (JObject kvs) \<and> map_of (rev kvs) P = Some v \<and> r = json_load v \<and>
                w1 = w\<lparr>log := log w @ [LogPrompt P, LogResponse r]\<rparr>)
       \<or> (\<exists>t. fst (ask_provider H P w) = Inr t \<and> r = json_of t \<and> sent w1 \<noteq> sent w \<and>
              (case write_fault w of
                 Some OpenFails \<Rightarrow> disk w1 = peers H (disk w)
               | Some DumpFails \<Rightarrow> disk w1 = Unreadable
               | None \<Rightarrow>
                   (case peers H (disk w) of
                      Missing \<Rightarrow> disk w1 = Holds (JObject [(P, r)])
                    | Unreadable \<Rightarrow> disk w1 = Holds (JObject [(P, r)])
                    | Holds j \<Rightarrow>
                        (\<exists>kvs kvs'. j = JObject kvs \<and> json_load j = JObject kvs' \<and>
                           disk w1 = Holds (JObject (AList.update P r kvs')) \<and>
                           map_of (AList.update P r kvs') P = Some r \<and>
                           (\<forall>k. k \<noteq> P \<longrightarrow>
                              map_of (AList.update P r kvs') k =
                                map_option json_load (map_of (rev kvs) k))))))"
proof -
  let ?w = "logger (LogPrompt P) w"
  from cache_lookup_cases [of P ?w] show ?thesis
  proof (elim disjE exE conjE)
    fix e wa assume "cache_lookup P ?w = (Inl e, wa)"
    with run show ?thesis by (simp add: call_llm_def)
  next
    fix v assume lk: "cache_lookup P ?w = (Inr (Some v), logger (LogResponse v) ?w)"
    with run have "r = v" "w1 = logger (LogResponse v) ?w" by (auto simp: call_llm_def)
    moreover from cache_lookup_hit(1) [OF lk]
    have "\<exists>kvs v0. disk w = Holds (JObject kvs) \<and> map_of (rev kvs) P = Some v0 \<and> v = json_load v0"
      by (simp add: logger_world)
    ultimately show ?thesis by (auto simp: logger_def)
  next
    fix wa assume lk: "cache_lookup P ?w = (Inr None, wa)"
      and same: "llm wa = llm ?w" "disk wa = disk ?w" "write_fault wa = write_fault ?w"
                "sent wa = sent ?w"
    obtain y w2 where ap: "ask_provider H P wa = (y, w2)" by (cases "ask_provider H P wa")
    have rs: "respond H P True (y, w2) = (Inr r, w1)"
      using run call_llm_miss [OF lk, of H] ap by simp
    then obtain t where y: "y = Inr t" by (cases y) (simp_all add: respond_def)
    let ?w3 = "logger (LogResponse (json_of t)) w2"
    have st: "cache_store H P (json_of t) ?w3 = (Inr r, w1)"
      using rs y by (simp add: respond_def)
    have raw: "fst (ask_provider H P w) = Inr t"
      using steady_same_llm(1) [OF steady_ask_provider, of wa w H P] same(1) ap y
      by (simp add: logger_world)
    have d2: "disk w2 = disk w" and f2: "write_fault w2 = write_fault w"
      using steady_frame(1,2) [OF steady_ask_provider, of H P wa] ap same
      by (simp_all add: logger_world)
    have s2: "sent w2 \<noteq> sent w"
      using ask_provider_sent [of H P wa t w2] ap y same by (simp add: logger_world)
    obtain kvs' where ld: "fst (load_cache (peers H (disk w))) = JObject kvs'"
      using st d2
      by (auto simp: cache_store_def py_setitem_def Let_def logger_world
               split: prod.splits json.splits)
    have r: "r = json_of t"
      using st by (auto simp: cache_store_def Let_def split: prod.splits sum.splits)
    have w1: "w1 = save_cache (JObject (AList.update P r kvs')) (?w3\<lparr>disk := peers H (disk w)\<rparr>)"
      using st ld d2 r
      by (auto simp: cache_store_def py_setitem_def Let_def logger_world
               split: prod.splits json.splits)
    have s1: "sent w1 = sent w2"
      unfolding w1 by (simp add: save_cache_def logger_def split: option.split write_fault.split)
    have wf: "write_fault (?w3\<lparr>disk := peers H (disk w)\<rparr>) = write_fault w"
      using f2 by (simp add: logger_world)
    have written: "write_fault w = None \<Longrightarrow> disk w1 = Holds (JObject (AList.update P r kvs'))"
      unfolding w1 using wf by (simp add: save_cache_def)
    have "case write_fault w of
            Some OpenFails \<Rightarrow> disk w1 = peers H (disk w)
          | Some DumpFails \<Rightarrow> disk w1 = Unreadable
          | None \<Rightarrow>
              (case peers H (disk w) of
                 Missing \<Rightarrow> disk w1 = Holds (JObject [(P, r)])
               | Unreadable \<Rightarrow> disk w1 = Holds (JObject [(P, r)])
               | Holds j \<Rightarrow>
                   (\<exists>kvs kvs'. j = JObject kvs \<and> json_load j = JObject kvs' \<and>
                      disk w1 = Holds (JObject (AList.update P r kvs')) \<and>
                      map_of (AList.update P r kvs') P = Some r \<and>
                      (\<forall>k. k \<noteq> P \<longrightarrow>
                         map_of (AList.update P r kvs') k =
                           map_option json_load (map_of (rev kvs) k))))"
    proof (cases "write_fault w")
      case (Some f)
      then show ?thesis
        unfolding w1 using wf
        by (cases f) (simp_all add: save_cache_def logger_def)
    next
      case None
      note wr = written [OF None]
      show ?thesis
      proof (cases "peers H (disk w)")
        case Missing
        then have "kvs' = []" using ld by (simp add: load_cache_def)
        with None Missing wr show ?thesis by simp
      next
        case Unreadable
        then have "kvs' = []" using ld by (simp add: load_cache_def)
        with None Unreadable wr show ?thesis by simp
      next
        case (Holds j)
        then have l: "json_load j = JObject kvs'" using ld by (simp add: load_cache_def)
        obtain kvs where j: "j = JObject kvs" using json_load_object(1) [OF l] by blast
        have others: "\<forall>k. k \<noteq> P \<longrightarrow>
                 map_of (AList.update P r kvs') k = map_option json_load (map_of (rev kvs) k)"
          using json_load_object(3) [OF l j] by (simp add: update_conv)
        have own: "map_of (AList.update P r kvs') P = Some r" by (simp add: update_conv)
        from j l wr own others
        have "\<exists>kvs kvs'. j = JObject kvs \<and> json_load j = JObject kvs' \<and>
                      disk w1 = Holds (JObject (AList.update P r kvs')) \<and>
                      map_of (AList.update P r kvs') P = Some r \<and>
                      (\<forall>k. k \<noteq> P \<longrightarrow>
                         map_of (AList.update P r kvs') k =
                           map_option json_load (map_of (rev kvs) k))"
          by blast
        with None Holds show ?thesis by simp
      qed
    qed
    with raw r s1 s2 show ?thesis by auto
  qed
qed


lemma cache_lookup_miss:
  assumes "disk w = Missing \<or> disk w = Unreadable \<or>
           (\<exists>kvs0. disk w = Holds (JObject kvs0) \<and> map_of kvs0 P = None)"
  shows "cache_lookup P w =
           (Inr None, if disk w = Unreadable then logger LogCacheLoadFailed w else w)"
proof -
  have "\<And>kvs0. map_of kvs0 P = None \<Longrightarrow>
          map_of (foldl (\<lambda>d (k, v). AList.update k (json_load v) d) [] kvs0) P = None"
  proof -
    fix kvs0 :: "(string \<times> json) list"
    assume "map_of kvs0 P = None"
    then have "map_of (rev kvs0) P = None" by (simp add: map_of_rev_none)
    then show "map_of (foldl (\<lambda>d (k, v). AList.update k (json_load v) d) [] kvs0) P = None"
      by (simp add: dict_lookup)
  qed
  then show ?thesis
    using assms by (auto simp: cache_lookup_def load_cache_def py_in_def)
qed

lemma save_cache_world:
  "sent (save_cache c w) = sent w" "llm (save_cache c w) = llm w"
  by (simp_all add: save_cache_def logger_def split: option.split write_fault.split)

text \<open>
  C4. When the cache file is missing or unreadable at the first load (or holds no entry
  for the prompt) and missing, unreadable or a JSON object at the re-load, cache
  handling raises nothing: the call returns or raises exactly what the call without
  caching does and sends the same requests. A write that fails is logged and the
  response is returned all the same; a write that succeeds after a missing or
  unreadable file stores the one new entry, as for an empty cache.
\<close>

theorem corrupt_cache_and_failed_write_are_not_fatal:
  assumes first: "disk w = Missing \<or> disk w = Unreadable \<or>
                  (\<exists>kvs0. disk w = Holds (JObject kvs0) \<and> map_of kvs0 P = None)"
      and again: "peers H (disk w) = Missing \<or> peers H (disk w) = Unreadable \<or>
                  (\<exists>kvs1. peers H (disk w) = Holds (JObject kvs1))"
  shows "fst (call_llm H P True w) = fst (call_llm H P False w) \<and>
         sent (snd (call_llm H P True w)) = sent (snd (call_llm H P False w)) \<and>
         llm (snd (call_llm H P True w)) = llm (snd (call_llm H P False w)) \<and>
         (\<forall>v. fst (call_llm H P True w) = Inr v \<longrightarrow>
            (case write_fault w of
               None \<Rightarrow>
                 (\<exists>kvs. fst (load_cache (peers H (disk w))) = JObject kvs \<and>
                    disk (snd (call_llm H P True w)) = Holds (JObject (AList.update P v kvs)))
             | Some f \<Rightarrow>
                 last (log (snd (call_llm H P True w))) = LogSaveFailed f \<and>
                 disk (snd (call_llm H P True w)) =
                   (case f of OpenFails \<Rightarrow> peers H (disk w) | DumpFails \<Rightarrow> Unreadable)) \<and>
            (write_fault w = None \<and> (peers H (disk w) = Missing \<or> peers H (disk w) = Unreadable)
               \<longrightarrow> disk (snd (call_llm H P True w)) = Holds (JObject [(P, v)])))"
proof -
  let ?w = "logger (LogPrompt P) w"
  let ?wa = "if disk ?w = Unreadable then logger LogCacheLoadFailed ?w else ?w"
  have first': "disk ?w = Missing \<or> disk ?w = Unreadable \<or>
                  (\<exists>kvs0. disk ?w = Holds (JObject kvs0) \<and> map_of kvs0 P = None)"
    using first by (simp add: logger_world)
  have lk: "cache_lookup P ?w = (Inr None, ?wa)"
    by (rule cache_lookup_miss [OF first'])
  have T: "call_llm H P True w = respond H P True (ask_provider H P ?wa)"
    by (rule call_llm_miss [OF lk])
  have F: "call_llm H P False w = respond H P False (ask_provider H P ?w)"
    by (simp add: call_llm_def)
  have same: "llm ?wa = llm ?w" "sent ?wa = sent ?w" "disk ?wa = disk w"
             "write_fault ?wa = write_fault w"
    by (simp_all add: logger_world)
  obtain y w2 where ap: "ask_provider H P ?wa = (y, w2)" by (cases "ask_provider H P ?wa")
  obtain y' w2' where ap': "ask_provider H P ?w = (y', w2')" by (cases "ask_provider H P ?w")
  have yy: "y = y'" and ll: "llm w2 = llm w2'"
    using steady_same_llm(1,2) [OF steady_ask_provider same(1), of H P] ap ap' by simp_all
  have ss: "sent w2 = sent w2'"
    using steady_same_llm(3) [OF steady_ask_provider same(1), of H P] ap ap' same(2) by auto
  have d2: "disk w2 = disk w" and f2: "write_fault w2 = write_fault w"
    using steady_frame(1,2) [OF steady_ask_provider, of H P ?wa] ap same by simp_all
  show ?thesis
  proof (cases y)
    case (Inl e)
    then show ?thesis using T F ap ap' yy ll ss by (simp add: respond_def)
  next
    case (Inr t)
    let ?v = "json_of t"
    let ?w3 = "logger (LogResponse ?v) w2"
    obtain kvs where kvs: "fst (load_cache (peers H (disk w))) = JObject kvs"
      using again by (auto simp: load_cache_def)
    have empty: "peers H (disk w) = Missing \<or> peers H (disk w) = Unreadable \<Longrightarrow> kvs = []"
      using kvs by (auto simp: load_cache_def)
    have st: "cache_store H P ?v ?w3 =
                (Inr ?v, save_cache (JObject (AList.update P ?v kvs)) (?w3\<lparr>disk := peers H (disk w)\<rparr>))"
      using kvs d2
      by (cases "load_cache (peers H (disk w))")
         (simp add: cache_store_def py_setitem_def Let_def logger_world)
    have Tv: "call_llm H P True w =
                (Inr ?v, save_cache (JObject (AList.update P ?v kvs)) (?w3\<lparr>disk := peers H (disk w)\<rparr>))"
      using T ap Inr st by (simp add: respond_def)
    have y': "y' = Inr t" using yy Inr by simp
    have Fv: "call_llm H P False w = (Inr ?v, logger (LogResponse ?v) w2')"
      by (simp add: F ap' y' respond_def)
    have wf: "write_fault (?w3\<lparr>disk := peers H (disk w)\<rparr>) = write_fault w"
      using f2 by (simp add: logger_world)
    have a: "fst (call_llm H P True w) = fst (call_llm H P False w)"
      by (simp add: Tv Fv)
    have b: "sent (snd (call_llm H P True w)) = sent (snd (call_llm H P False w))"
      by (simp add: Tv Fv save_cache_world logger_world ss)
    have c: "llm (snd (call_llm H P True w)) = llm (snd (call_llm H P False w))"
      by (simp add: Tv Fv save_cache_world logger_world ll)
    have d: "case write_fault w of
               None \<Rightarrow>
                 (\<exists>kvs. fst (load_cache (peers H (disk w))) = JObject kvs \<and>
                    disk (snd (call_llm H P True w)) = Holds (JObject (AList.update P ?v kvs)))
             | Some f \<Rightarrow>
                 last (log (snd (call_llm H P True w))) = LogSaveFailed f \<and>
                 disk (snd (call_llm H P True w)) =
                   (case f of OpenFails \<Rightarrow> peers H (disk w) | DumpFails \<Rightarrow> Unreadable)"
      using wf kvs
      by (simp add: Tv save_cache_def logger_def split: option.split write_fault.split)
    have e: "write_fault w = None \<and> (peers H (disk w) = Missing \<or> peers H (disk w) = Unreadable)
               \<longrightarrow> disk (snd (call_llm H P True w)) = Holds (JObject [(P, ?v)])"
      using wf empty by (auto simp: Tv save_cache_def)
    have fT: "fst (call_llm H P True w) = Inr ?v" by (simp add: Tv)
    have de: "\<forall>v. fst (call_llm H P True w) = Inr v \<longrightarrow>
            (case write_fault w of
               None \<Rightarrow>
                 (\<exists>kvs. fst (load_cache (peers H (disk w))) = JObject kvs \<and>
                    disk (snd (call_llm H P True w)) = Holds (JObject (AList.update P v kvs)))
             | Some f \<Rightarrow>
                 last (log (snd (call_llm H P True w))) = LogSaveFailed f \<and>
                 disk (snd (call_llm H P True w)) =
                   (case f of OpenFails \<Rightarrow> peers H (disk w) | DumpFails \<Rightarrow> Unreadable)) \<and>
            (write_fault w = None \<and> (peers H (disk w) = Missing \<or> peers H (disk w) = Unreadable)
               \<longrightarrow> disk (snd (call_llm H P True w)) = Holds (JObject [(P, v)]))"
    proof (intro allI impI)
      fix v assume "fst (call_llm H P True w) = Inr v"
      then have "v = ?v" using fT by simp
      then show "(case write_fault w of
               None \<Rightarrow>
                 (\<exists>kvs. fst (load_cache (peers H (disk w))) = JObject kvs \<and>
                    disk (snd (call_llm H P True w)) = Holds (JObject (AList.update P v kvs)))
             | Some f \<Rightarrow>
                 last (log (snd (call_llm H P True w))) = LogSaveFailed f \<and>
                 disk (snd (call_llm H P True w)) =
                   (case f of OpenFails \<Rightarrow> peers H (disk w) | DumpFails \<Rightarrow> Unreadable)) \<and>
            (write_fault w = None \<and> (peers H (disk w) = Missing \<or> peers H (disk w) = Unreadable)
               \<longrightarrow> disk (snd (call_llm H P True w)) = Holds (JObject [(P, v)]))"
        using d e by blast
    qed
    show ?thesis using a b c de by blast
  qed
qed


lemma sample_compressed_call:
  "fst (call_llm (scripted_host [(''LLM_MAX_PROMPT_CHARS'', ''5''), (''LLM_CHUNK_SIZE_CHARS'', ''4'')]
                   [Inr (Some '' s1 ''), Inr (Some ''s2''), Inr (Some ''s''), Inr (Some ''answer'')]
                   (Inl (ProviderError ''offline'')))
          ''abcdefgh'' True sample_world) = Inr (JString ''answer'')
   \<and> last (sent (snd (call_llm (scripted_host [(''LLM_MAX_PROMPT_CHARS'', ''5''), (''LLM_CHUNK_SIZE_CHARS'', ''4'')]
                   [Inr (Some '' s1 ''), Inr (Some ''s2''), Inr (Some ''s''), Inr (Some ''answer'')]
                   (Inl (ProviderError ''offline'')))
          ''abcdefgh'' True sample_world))) = GenerateContent ''gemini-2.5-flash'' [''s'']
   \<and> length (sent (snd (call_llm (scripted_host [(''LLM_MAX_PROMPT_CHARS'', ''5''), (''LLM_CHUNK_SIZE_CHARS'', ''4'')]
                   [Inr (Some '' s1 ''), Inr (Some ''s2''), Inr (Some ''s''), Inr (Some ''answer'')]
                   (Inl (ProviderError ''offline'')))
          ''abcdefgh'' True sample_world))) = 4"
  by (simp add: gateway_defs summarize_chunks_def range_from_zero_def compress_request_def
        reduce_loop.simps strip_def py_isspace_def NL_def numeral_2_eq_2)


lemma sample_shared_call:
  "call_llm shared_host ''abcdefgh'' True
       (sample_world\<lparr>disk := Holds (JObject [(''old'', JString ''kept'')])\<rparr>) =
     (Inr (JString ''answer''),
      \<lparr>disk = Holds (JObject [(''old'', JString ''kept''), (''late'', JString ''theirs''),
                              (''abcdefgh'', JString ''answer'')]),
       write_fault = None, llm = 4,
       sent = [GenerateContent ''gemini-2.5-flash'' [instruction, ''Compress this chunk:'' @ [NL] @ ''abcd''],
               GenerateContent ''gemini-2.5-flash'' [instruction, ''Compress this chunk:'' @ [NL] @ ''efgh''],
               GenerateContent ''gemini-2.5-flash''
                 [instruction,
                  ''Further compress while preserving technical fidelity:'' @ [NL] @ ''s1'' @ [NL, NL] @ ''s2''],
               GenerateContent ''gemini-2.5-flash'' [''s'']],
       log = [LogPrompt ''abcdefgh'', LogCompressing ''google'' 8 5,
              LogResponse (JString ''answer'')]\<rparr>)"
  by (simp add: gateway_defs shared_host_def compressing_host_def summarize_chunks_def
        range_from_zero_def compress_request_def reduce_loop.simps strip_def py_isspace_def
        NL_def numeral_2_eq_2)

theorem stored_entry_is_original_prompt_and_raw_response_witness:
  "call_llm shared_host ''abcdefgh'' True
       (sample_world\<lparr>disk := Holds (JObject [(''old'', JString ''kept'')])\<rparr>) =
     (Inr (JString ''answer''),
      \<lparr>disk = Holds (JObject [(''old'', JString ''kept''), (''late'', JString ''theirs''),
                              (''abcdefgh'', JString ''answer'')]),
       write_fault = None, llm = 4,
       sent = [GenerateContent ''gemini-2.5-flash'' [instruction, ''Compress this chunk:'' @ [NL] @ ''abcd''],
               GenerateContent ''gemini-2.5-flash'' [instruction, ''Compress this chunk:'' @ [NL] @ ''efgh''],
               GenerateContent ''gemini-2.5-flash''
                 [instruction,
                  ''Further compress while preserving technical fidelity:'' @ [NL] @ ''s1'' @ [NL, NL] @ ''s2''],
               GenerateContent ''gemini-2.5-flash'' [''s'']],
       log = [LogPrompt ''abcdefgh'', LogCompressing ''google'' 8 5,
              LogResponse (JString ''answer'')]\<rparr>)
   \<and> peers shared_host (Holds (JObject [(''old'', JString ''kept'')])) =
        Holds (JObject [(''old'', JString ''kept''), (''late'', JString ''theirs'')])
   \<and> map_of (AList.update ''abcdefgh'' (JString ''answer'')
                [(''old'', JString ''kept''), (''late'', JString ''theirs'')]) ''late''
        = Some (JString ''theirs'')"
proof -
  have p: "peers shared_host (Holds (JObject [(''old'', JString ''kept'')])) =
             Holds (JObject [(''old'', JString ''kept''), (''late'', JString ''theirs'')])"
    by (simp add: shared_host_def)
  show ?thesis
    using sample_shared_call p
      stored_entry_is_original_prompt_and_raw_response [OF sample_shared_call]
    by (simp add: sample_world_def)
qed

theorem corrupt_cache_and_failed_write_are_not_fatal_witness:
  "fst (call_llm (scripted_host [] [Inr (Some ''pong'')] (Inl (ProviderError ''offline''))) ''ping'' True
          (sample_world\<lparr>disk := Unreadable, write_fault := Some DumpFails\<rparr>)) = Inr (JString ''pong'')
   \<and> fst (call_llm (scripted_host [] [Inr (Some ''pong'')] (Inl (ProviderError ''offline''))) ''ping'' False
          (sample_world\<lparr>disk := Unreadable, write_fault := Some DumpFails\<rparr>)) = Inr (JString ''pong'')
   \<and> last (log (snd (call_llm (scripted_host [] [Inr (Some ''pong'')] (Inl (ProviderError ''offline'')))
          ''ping'' True (sample_world\<lparr>disk := Unreadable, write_fault := Some DumpFails\<rparr>))))
        = LogSaveFailed DumpFails
   \<and> disk (snd (call_llm (scripted_host [] [Inr (Some ''pong'')] (Inl (ProviderError ''offline'')))
          ''ping'' True (sample_world\<lparr>disk := Unreadable\<rparr>)))
        = Holds (JObject [(''ping'', JString ''pong'')])"
proof -
  let ?H = "scripted_host [] [Inr (Some ''pong'')] (Inl (ProviderError ''offline''))"
  let ?w = "sample_world\<lparr>disk := Unreadable, write_fault := Some DumpFails\<rparr>"
  let ?u = "sample_world\<lparr>disk := Unreadable\<rparr>"
  have v: "fst (call_llm ?H ''ping'' False ?w) = Inr (JString ''pong'')"
          "fst (call_llm ?H ''ping'' False ?u) = Inr (JString ''pong'')"
    by (simp_all add: gateway_defs)
  have h1: "disk ?w = Missing \<or> disk ?w = Unreadable \<or>
              (\<exists>kvs0. disk ?w = Holds (JObject kvs0) \<and> map_of kvs0 ''ping'' = None)"
    by simp
  have h2: "peers ?H (disk ?w) = Missing \<or> peers ?H (disk ?w) = Unreadable \<or>
              (\<exists>kvs1. peers ?H (disk ?w) = Holds (JObject kvs1))"
    by (simp add: scripted_host_def)
  have g1: "disk ?u = Missing \<or> disk ?u = Unreadable \<or>
              (\<exists>kvs0. disk ?u = Holds (JObject kvs0) \<and> map_of kvs0 ''ping'' = None)"
    by simp
  have g2: "peers ?H (disk ?u) = Missing \<or> peers ?H (disk ?u) = Unreadable \<or>
              (\<exists>kvs1. peers ?H (disk ?u) = Holds (JObject kvs1))"
    by (simp add: scripted_host_def)
  have e: "write_fault ?w = Some DumpFails" "write_fault ?u = None" "peers ?H (disk ?u) = Unreadable"
    by (simp_all add: sample_world_def scripted_host_def)
  show ?thesis
    using v e corrupt_cache_and_failed_write_are_not_fatal [OF h1 h2]
      corrupt_cache_and_failed_write_are_not_fatal [OF g1 g2]
    by simp
qed

section \<open>The gateway's compression and retry\<close>

lemma concat_slices_upto:
  "concat (map (\<lambda>k. take n (drop (k * n) s)) [0..<m]) = take (m * n) s"
proof (induction m)
  case 0
  show ?case by simp
next
  case (Suc m)
  have "take (m * n) s @ take n (drop (m * n) s) = take (m * n + n) s"
    by (simp add: take_add)
  then show ?case using Suc by (simp add: add.commute)
qed

lemma concat_slices: "0 < n \<Longrightarrow> concat (slices n s) = s"
proof -
  assume n: "0 < n"
  have "length s \<le> ((length s + n - 1) div n) * n"
  proof -
    have "(length s + n - 1) mod n < n" using n by simp
    moreover have "((length s + n - 1) div n) * n + (length s + n - 1) mod n = length s + n - 1"
      by simp
    ultimately show ?thesis by linarith
  qed
  then show ?thesis
    unfolding slices_def concat_slices_upto by simp
qed

lemma range_slices:
  "0 < cs \<Longrightarrow>
     map_option (map (\<lambda>i. take (nat cs) (drop i s))) (range_from_zero (length s) cs)
       = Some (slices (nat cs) s)"
  by (simp add: range_from_zero_def slices_def comp_def)

lemma compress_chunks_trace:
  "compress_chunks H pn model chunks acc w = (Inr summaries, w') \<Longrightarrow>
     sent w' = sent w @ map (\<lambda>c. compress_request pn model (''Compress this chunk:'' @ [NL] @ c)) chunks
     \<and> length summaries = length acc + length chunks"
proof (induction chunks arbitrary: acc w)
  case Nil
  then show ?case by simp
next
  case (Cons chunk rest)
  let ?rq = "compress_request pn model (''Compress this chunk:'' @ [NL] @ chunk)"
  obtain a wa where pc: "provider_call H ?rq w = (a, wa)" by (cases "provider_call H ?rq w")
  have swa: "sent wa = sent w @ [?rq]"
    using provider_call_sent [of H ?rq w] pc by simp
  obtain t where a: "a = Inr (Some t)"
    using Cons.prems pc by (cases a; cases "projr a") auto
  have "compress_chunks H pn model rest (acc @ [strip t]) wa = (Inr summaries, w')"
    using Cons.prems pc a by simp
  from Cons.IH [OF this] show ?case using swa by simp
qed

lemma reduce_loop_trace:
  "reduce_loop H pn model max_chars c r w = (Inr out, w') \<Longrightarrow>
     \<exists>texts. sent w' = sent w @
                 map (\<lambda>c. compress_request pn model
                        (''Further compress while preserving technical fidelity:'' @ [NL] @ c)) texts
       \<and> length texts \<le> 3 - r
       \<and> (\<forall>t \<in> set texts. max_chars < int (length t))
       \<and> (int (length out) \<le> max_chars \<or> 3 \<le> r + length texts)
       \<and> hd (texts @ [out]) = c"
proof (induction "3 - r" arbitrary: c r w)
  case 0
  then have stop: "\<not> (int (length c) > max_chars \<and> r < 3)" by simp
  have "out = c" "w' = w"
    using "0.prems" reduce_loop_done [OF stop, of H pn model w] by simp_all
  moreover have "3 \<le> r" using "0.hyps" by simp
  ultimately show ?case by (intro exI [of _ "[]"]) simp
next
  case (Suc n)
  show ?case
  proof (cases "int (length c) > max_chars \<and> r < 3")
    case False
    have "out = c" "w' = w"
      using Suc.prems reduce_loop_done [OF False, of H pn model w] by simp_all
    moreover have "int (length c) \<le> max_chars \<or> 3 \<le> r" using False by auto
    ultimately show ?thesis by (intro exI [of _ "[]"]) auto
  next
    case True
    let ?rq = "compress_request pn model
                 (''Further compress while preserving technical fidelity:'' @ [NL] @ c)"
    obtain a wa where pc: "provider_call H ?rq w = (a, wa)" by (cases "provider_call H ?rq w")
    have swa: "sent wa = sent w @ [?rq]"
      using provider_call_sent [of H ?rq w] pc by simp
    have step: "reduce_loop H pn model max_chars c r w =
                  (case (a, wa) of
                     (Inl e, w') \<Rightarrow> (Inl e, w')
                   | (Inr None, w') \<Rightarrow> (Inl AttributeError, w')
                   | (Inr (Some t), w') \<Rightarrow> reduce_loop H pn model max_chars (strip t) (r + 1) w')"
      using True reduce_loop_step [of max_chars c r H pn model w] pc by simp
    obtain t where a: "a = Inr (Some t)"
      using Suc.prems step by (cases a; cases "projr a") auto
    have rec: "reduce_loop H pn model max_chars (strip t) (r + 1) wa = (Inr out, w')"
      using Suc.prems step a by simp
    have n: "n = 3 - (r + 1)" using Suc.hyps(2) by simp
    from Suc.hyps(1) [OF n rec] obtain texts where
      t1: "sent w' = sent wa @
                 map (\<lambda>c. compress_request pn model
                        (''Further compress while preserving technical fidelity:'' @ [NL] @ c)) texts"
      and t2: "length texts \<le> 3 - (r + 1)"
      and t3: "\<forall>t \<in> set texts. max_chars < int (length t)"
      and t4: "int (length out) \<le> max_chars \<or> 3 \<le> (r + 1) + length texts"
      by blast
    show ?thesis
      using t1 t2 t3 t4 swa True
      by (intro exI [of _ "c # texts"]) auto
  qed
qed

lemma summarize_chunks_trace:
  assumes cs: "0 < get_chunk_size_chars H pn"
      and run: "summarize_chunks H pn s model max_chars w = (Inr out, w')"
  shows "\<exists>summaries texts.
           fst (compress_chunks H pn model (slices (nat (get_chunk_size_chars H pn)) s) [] w)
             = Inr summaries \<and>
           length summaries = length (slices (nat (get_chunk_size_chars H pn)) s) \<and>
           sent w' = sent w @
             map (\<lambda>c. compress_request pn model (''Compress this chunk:'' @ [NL] @ c))
               (slices (nat (get_chunk_size_chars H pn)) s) @
             map (\<lambda>c. compress_request pn model
                        (''Further compress while preserving technical fidelity:'' @ [NL] @ c)) texts \<and>
           length texts \<le> 3 \<and>
           (\<forall>t \<in> set texts. max_chars < int (length t)) \<and>
           (int (length out) \<le> max_chars \<or> length texts = 3) \<and>
           hd (texts @ [out]) = join [NL, NL] summaries"
proof -
  let ?cs = "get_chunk_size_chars H pn"
  let ?chunks = "slices (nat ?cs) s"
  have rg: "range_from_zero (length s) ?cs = Some (map (\<lambda>k. k * nat ?cs)
               [0..<(length s + nat ?cs - 1) div nat ?cs])"
    using cs by (simp add: range_from_zero_def)
  have ch: "map (\<lambda>i. take (nat ?cs) (drop i s))
              (map (\<lambda>k. k * nat ?cs) [0..<(length s + nat ?cs - 1) div nat ?cs]) = ?chunks"
    by (simp add: slices_def comp_def)
  obtain a wa where cc: "compress_chunks H pn model ?chunks [] w = (a, wa)"
    by (cases "compress_chunks H pn model ?chunks [] w")
  have eq: "summarize_chunks H pn s model max_chars w =
              (case (a, wa) of
                 (Inl e, w') \<Rightarrow> (Inl e, w')
               | (Inr summaries, w') \<Rightarrow>
                   reduce_loop H pn model max_chars (join [NL, NL] summaries) 0 w')"
    unfolding summarize_chunks_def Let_def rg option.case ch cc ..
  obtain summaries where a: "a = Inr summaries"
    using run eq by (cases a) auto
  have rl: "reduce_loop H pn model max_chars (join [NL, NL] summaries) 0 wa = (Inr out, w')"
    using run eq a by simp
  from compress_chunks_trace [of H pn model ?chunks "[]" w summaries wa] cc a
  have c1: "sent wa = sent w @
             map (\<lambda>c. compress_request pn model (''Compress this chunk:'' @ [NL] @ c)) ?chunks"
    and c2: "length summaries = length ?chunks" by simp_all
  from reduce_loop_trace [OF rl] obtain texts where
    t1: "sent w' = sent wa @
                 map (\<lambda>c. compress_request pn model
                        (''Further compress while preserving technical fidelity:'' @ [NL] @ c)) texts"
    and t2: "length texts \<le> 3"
    and t3: "\<forall>t \<in> set texts. max_chars < int (length t)"
    and t4: "int (length out) \<le> max_chars \<or> 3 \<le> length texts"
    and t5: "hd (texts @ [out]) = join [NL, NL] summaries"
    by auto
  have t4': "int (length out) \<le> max_chars \<or> length texts = 3" using t2 t4 by auto
  show ?thesis
    using cc a c1 c2 t1 t2 t3 t4' t5
    by (intro exI [of _ summaries] exI [of _ texts]) simp
qed

lemma cache_store_sent:
  "cache_store H P r w3 = (x, w1) \<Longrightarrow> sent w1 = sent w3"
  by (auto simp: cache_store_def Let_def save_cache_world split: prod.splits sum.splits)

lemma call_llm_asked:
  assumes run: "call_llm H P uc w = (Inr v, w1)" and asked: "sent w1 \<noteq> sent w"
  shows "\<exists>wa t w2. llm wa = llm w \<and> sent wa = sent w \<and> ask_provider H P wa = (Inr t, w2) \<and>
                   sent w1 = sent w2 \<and> v = json_of t"
proof -
  let ?w = "logger (LogPrompt P) w"
  have gate: "\<exists>wa. llm wa = llm w \<and> sent wa = sent w \<and>
                call_llm H P uc w = respond H P uc (ask_provider H P wa)"
  proof (cases uc)
    case False
    then show ?thesis
      by (intro exI [of _ ?w]) (simp add: call_llm_def logger_world)
  next
    case True
    from cache_lookup_cases [of P ?w] show ?thesis
    proof (elim disjE exE conjE)
      fix e wa assume "cache_lookup P ?w = (Inl e, wa)"
      with run True show ?thesis by (simp add: call_llm_def)
    next
      fix c assume "cache_lookup P ?w = (Inr (Some c), logger (LogResponse c) ?w)"
      with run True have "w1 = logger (LogResponse c) ?w" by (auto simp: call_llm_def)
      with asked show ?thesis by (simp add: logger_world)
    next
      fix wa assume lk: "cache_lookup P ?w = (Inr None, wa)"
        and "llm wa = llm ?w" "sent wa = sent ?w"
      then show ?thesis
        using call_llm_miss [OF lk, of H] True by (intro exI [of _ wa]) (simp add: logger_world)
    qed
  qed
  then obtain wa where wa: "llm wa = llm w" "sent wa = sent w"
    and eq: "call_llm H P uc w = respond H P uc (ask_provider H P wa)" by blast
  obtain y w2 where ap: "ask_provider H P wa = (y, w2)" by (cases "ask_provider H P wa")
  have rs: "respond H P uc (y, w2) = (Inr v, w1)" using run eq ap by simp
  then obtain t where y: "y = Inr t" by (cases y) (simp_all add: respond_def)
  have "sent w1 = sent w2 \<and> v = json_of t"
  proof (cases uc)
    case False
    with rs y show ?thesis by (auto simp: respond_def logger_world)
  next
    case True
    with rs y have st: "cache_store H P (json_of t) (logger (LogResponse (json_of t)) w2) = (Inr v, w1)"
      by (simp add: respond_def)
    have "v = json_of t"
      using st by (auto simp: cache_store_def Let_def split: prod.splits sum.splits)
    then show ?thesis using cache_store_sent [OF st] by (simp add: logger_world)
  qed
  with wa ap y show ?thesis by blast
qed

lemma provider_names:
  "provider_of H = ''openai'' \<or> provider_of H = ''google''"
  "provider_of H = ''openai'' \<longleftrightarrow> lower (getenv_default H ''LLM_PROVIDER'' ''google'') = ''openai''"
  by (simp_all add: provider_of_def)

lemma ask_provider_shape:
  assumes ap: "ask_provider H P w = (Inr t, w2)"
  shows "\<exists>eff wb rest.
           prepare_prompt H (provider_of H) (model_of H) (get_limit_chars H (provider_of H)) P w
             = (Inr eff, wb) \<and>
           sent w2 = sent wb @ [plain_request H eff] @ rest \<and>
           (provider_of H = ''google'' \<longrightarrow> rest = [])"
proof (cases "provider_of H = ''openai''")
  case False
  then have g: "provider_of H = ''google''" using provider_names(1) [of H] by simp
  have m: "model_of H = getenv_default H ''GEMINI_MODEL'' ''gemini-2.5-flash''"
    using False by (simp add: model_of_def)
  have cg: "call_google H P w = (Inr t, w2)"
    using ap False provider_names(2) [of H] by (simp add: ask_provider_def)
  obtain a wb where pp: "prepare_prompt H ''google'' (model_of H) (get_limit_chars H ''google'') P w = (a, wb)"
    by (cases "prepare_prompt H ''google'' (model_of H) (get_limit_chars H ''google'') P w")
  obtain eff where a: "a = Inr eff"
    using cg pp m by (cases a) (simp_all add: call_google_def Let_def)
  have "w2 = snd (provider_call H (GenerateContent (model_of H) [eff]) wb)"
    using cg pp a m by (simp add: call_google_def Let_def)
  then have "sent w2 = sent wb @ [plain_request H eff] @ []"
    using False by (simp add: provider_call_sent plain_request_def)
  then show ?thesis using pp a g by auto
next
  case True
  have m: "model_of H = getenv_default H ''OPENAI_MODEL'' ''gpt-4o-mini''"
    using True by (simp add: model_of_def)
  let ?max = "get_limit_chars H ''openai''"
  have co: "call_openai H P w = (Inr t, w2)"
    using ap True provider_names(2) [of H] by (simp add: ask_provider_def)
  obtain a wb where pp: "prepare_prompt H ''openai'' (model_of H) ?max P w = (a, wb)"
    by (cases "prepare_prompt H ''openai'' (model_of H) ?max P w")
  obtain eff where a: "a = Inr eff"
    using co pp m by (cases a) (simp_all add: call_openai_def Let_def)
  let ?rq = "ChatCompletions (model_of H) [(User, eff)]"
  have prq: "plain_request H eff = ?rq" using True by (simp add: plain_request_def)
  obtain b wc where pc: "provider_call H ?rq wb = (b, wc)" by (cases "provider_call H ?rq wb")
  have wc: "sent wc = sent wb @ [?rq]"
    using provider_call_sent [of H ?rq wb] pc by simp
  have "\<exists>rest. sent w2 = sent wc @ rest"
  proof (cases b)
    case (Inr x)
    then have "w2 = wc" using co pp a pc m by (simp add: call_openai_def Let_def)
    then show ?thesis by simp
  next
    case (Inl e)
    obtain msg where e: "e = BadRequestError msg"
      using co pp a pc Inl m by (cases e) (simp_all add: call_openai_def Let_def)
    have ce: "context_exceeded msg"
      using co pp a pc Inl e m by (auto simp: call_openai_def Let_def split: if_splits)
    obtain c wd where sm: "summarize_chunks H ''openai'' eff (model_of H) (?max div 2)
                             (logger LogContextRetry wc) = (c, wd)"
      by (cases "summarize_chunks H ''openai'' eff (model_of H) (?max div 2) (logger LogContextRetry wc)")
    obtain mid where mid: "sent wd = sent wc @ mid"
      using steady_frame(3) [OF steady_summarize_chunks, of H "''openai''" eff "model_of H" "?max div 2"
                               "logger LogContextRetry wc"] sm
      by (auto simp: logger_world)
    obtain eff' where c: "c = Inr eff'"
      using co pp a pc Inl e ce sm m by (cases c) (simp_all add: call_openai_def Let_def)
    have "w2 = snd (provider_call H (ChatCompletions (model_of H) [(User, eff')]) wd)"
      using co pp a pc Inl e ce sm c m by (simp add: call_openai_def Let_def)
    then show ?thesis using mid by (simp add: provider_call_sent)
  qed
  then obtain rest where "sent w2 = sent wb @ [plain_request H eff] @ rest"
    using wc prq by auto
  then show ?thesis using pp a True by auto
qed

text \<open>
  C2, as amended. When the prompt is longer than the provider's ceiling, the chunk size
  is positive and the call returns a response that came from the provider, the requests
  sent are: one compression request for each fixed-size slice of the prompt, in order
  (the slices concatenate to the prompt); then at most three requests to compress
  further, the first for the stripped summaries joined by blank lines, each sent only
  for a text still over the ceiling; then the request with the final prompt. The final
  prompt is within the ceiling unless all three rounds were used.
\<close>

theorem long_prompt_is_compressed_in_bounded_rounds:
  assumes long: "get_limit_chars H (provider_of H) < int (length P)"
      and cs: "0 < get_chunk_size_chars H (provider_of H)"
      and run: "call_llm H P use_cache w = (Inr v, w1)"
      and asked: "sent w1 \<noteq> sent w"
  shows "\<exists>summaries texts final rest.
           sent w1 = sent w @
             map (chunk_request H) (slices (nat (get_chunk_size_chars H (provider_of H))) P) @
             map (further_request H) texts @ [plain_request H final] @ rest \<and>
           concat (slices (nat (get_chunk_size_chars H (provider_of H))) P) = P \<and>
           fst (compress_chunks H (provider_of H) (model_of H)
                  (slices (nat (get_chunk_size_chars H (provider_of H))) P) [] w) = Inr summaries \<and>
           length summaries = length (slices (nat (get_chunk_size_chars H (provider_of H))) P) \<and>
           hd (texts @ [final]) = join [NL, NL] summaries \<and>
           length texts \<le> 3 \<and>
           (\<forall>t \<in> set texts. get_limit_chars H (provider_of H) < int (length t)) \<and>
           (int (length final) \<le> get_limit_chars H (provider_of H) \<or> length texts = 3) \<and>
           (provider_of H = ''google'' \<longrightarrow> rest = [])"
proof -
  let ?pn = "provider_of H"
  let ?lim = "get_limit_chars H ?pn"
  let ?chunks = "slices (nat (get_chunk_size_chars H ?pn)) P"
  obtain wa t w2 where wa: "llm wa = llm w" "sent wa = sent w"
    and ap: "ask_provider H P wa = (Inr t, w2)" and s12: "sent w1 = sent w2"
    using call_llm_asked [OF run asked] by blast
  obtain eff wb rest where
    pp: "prepare_prompt H ?pn (model_of H) ?lim P wa = (Inr eff, wb)"
    and sh: "sent w2 = sent wb @ [plain_request H eff] @ rest"
    and gr: "?pn = ''google'' \<longrightarrow> rest = []"
    using ask_provider_shape [OF ap] by blast
  let ?wl = "logger (LogCompressing ?pn (length P) ?lim) wa"
  have sm: "summarize_chunks H ?pn P (model_of H) ?lim ?wl = (Inr eff, wb)"
    using pp long by (simp add: prepare_prompt_def)
  from summarize_chunks_trace [OF cs sm] obtain summaries texts where
    f: "fst (compress_chunks H ?pn (model_of H) ?chunks [] ?wl) = Inr summaries"
    and l: "length summaries = length ?chunks"
    and tr: "sent wb = sent ?wl @
             map (\<lambda>c. compress_request ?pn (model_of H) (''Compress this chunk:'' @ [NL] @ c)) ?chunks @
             map (\<lambda>c. compress_request ?pn (model_of H)
                        (''Further compress while preserving technical fidelity:'' @ [NL] @ c)) texts"
    and t2: "length texts \<le> 3"
    and t3: "\<forall>t \<in> set texts. ?lim < int (length t)"
    and t4: "int (length eff) \<le> ?lim \<or> length texts = 3"
    and t5: "hd (texts @ [eff]) = join [NL, NL] summaries"
    by blast
  have f': "fst (compress_chunks H ?pn (model_of H) ?chunks [] w) = Inr summaries"
    using steady_same_llm(1) [OF steady_compress_chunks, of w ?wl H ?pn "model_of H" ?chunks "[]"]
      f wa(1) by (simp add: logger_world)
  have rq1: "(\<lambda>c. compress_request ?pn (model_of H) (''Compress this chunk:'' @ [NL] @ c))
               = chunk_request H"
    by (simp add: chunk_request_def fun_eq_iff)
  have rq2: "(\<lambda>c. compress_request ?pn (model_of H)
                        (''Further compress while preserving technical fidelity:'' @ [NL] @ c))
               = further_request H"
    by (simp add: further_request_def fun_eq_iff)
  have full: "sent w1 = sent w @ map (chunk_request H) ?chunks @ map (further_request H) texts @
                [plain_request H eff] @ rest"
    using s12 sh tr wa(2) unfolding rq1 rq2 by (simp add: logger_world)
  have cc: "concat ?chunks = P"
    using cs by (intro concat_slices) simp
  show ?thesis
    using full cc f' l t5 t2 t3 t4 gr
    by (intro exI [of _ summaries] exI [of _ texts] exI [of _ eff] exI [of _ rest]) simp
qed

lemma is_plain_simps [simp]:
  "is_plain (plain_request H e)" "\<not> is_plain (compress_request pn model c)"
  by (simp_all add: is_plain_def plain_request_def compress_request_def)

lemma only_compress_compress_chunks: "only_compress (compress_chunks H pn model chunks acc)"
proof (induction chunks arbitrary: acc)
  case Nil
  show ?case by (simp add: only_compress_def)
next
  case (Cons chunk rest)
  show ?case
    unfolding only_compress_def
  proof
    fix w
    let ?rq = "compress_request pn model (''Compress this chunk:'' @ [NL] @ chunk)"
    obtain a wa where pc: "provider_call H ?rq w = (a, wa)" by (cases "provider_call H ?rq w")
    have swa: "sent wa = sent w @ [?rq]"
      using provider_call_sent [of H ?rq w] pc by simp
    show "\<exists>more. sent (snd (compress_chunks H pn model (chunk # rest) acc w)) = sent w @ more \<and>
                 filter is_plain more = []"
    proof (cases a)
      case (Inl e)
      then show ?thesis using pc swa by (intro exI [of _ "[?rq]"]) simp
    next
      case (Inr ot)
      show ?thesis
      proof (cases ot)
        case None
        then show ?thesis using Inr pc swa by (intro exI [of _ "[?rq]"]) simp
      next
        case (Some t)
        obtain more where m: "sent (snd (compress_chunks H pn model rest (acc @ [strip t]) wa))
                                = sent wa @ more" "filter is_plain more = []"
          using Cons.IH [of "acc @ [strip t]"] unfolding only_compress_def by blast
        then show ?thesis using Some Inr pc swa by (intro exI [of _ "?rq # more"]) simp
      qed
    qed
  qed
qed

lemma only_compress_reduce_loop: "only_compress (reduce_loop H pn model max_chars c r)"
proof (induction "3 - r" arbitrary: c r)
  case 0
  then have stop: "\<not> (int (length c) > max_chars \<and> r < 3)" by simp
  show ?case by (simp add: only_compress_def reduce_loop_done [OF stop])
next
  case (Suc n)
  show ?case
  proof (cases "int (length c) > max_chars \<and> r < 3")
    case False
    then show ?thesis by (simp add: only_compress_def reduce_loop_done [OF False])
  next
    case True
    show ?thesis
      unfolding only_compress_def
    proof
      fix w
      let ?rq = "compress_request pn model
                   (''Further compress while preserving technical fidelity:'' @ [NL] @ c)"
      obtain a wa where pc: "provider_call H ?rq w = (a, wa)" by (cases "provider_call H ?rq w")
      have swa: "sent wa = sent w @ [?rq]"
        using provider_call_sent [of H ?rq w] pc by simp
      have step: "reduce_loop H pn model max_chars c r w =
                  (case (a, wa) of
                     (Inl e, w') \<Rightarrow> (Inl e, w')
                   | (Inr None, w') \<Rightarrow> (Inl AttributeError, w')
                   | (Inr (Some t), w') \<Rightarrow> reduce_loop H pn model max_chars (strip t) (r + 1) w')"
        using True reduce_loop_step [of max_chars c r H pn model w] pc by simp
      have n: "n = 3 - (r + 1)" using Suc.hyps(2) by simp
      show "\<exists>more. sent (snd (reduce_loop H pn model max_chars c r w)) = sent w @ more \<and>
                   filter is_plain more = []"
      proof (cases a)
        case (Inl e)
        then show ?thesis using step swa by (intro exI [of _ "[?rq]"]) simp
      next
        case (Inr ot)
        show ?thesis
        proof (cases ot)
          case None
          then show ?thesis using Inr step swa by (intro exI [of _ "[?rq]"]) simp
        next
          case (Some t)
          obtain more where m: "sent (snd (reduce_loop H pn model max_chars (strip t) (r + 1) wa))
                                  = sent wa @ more" "filter is_plain more = []"
            using Suc.hyps(1) [OF n, of "strip t"] unfolding only_compress_def by blast
          then show ?thesis using Some Inr step swa by (intro exI [of _ "?rq # more"]) simp
        qed
      qed
    qed
  qed
qed

lemma only_compress_summarize_chunks: "only_compress (summarize_chunks H pn s model max_chars)"
  unfolding only_compress_def
proof
  fix w
  show "\<exists>more. sent (snd (summarize_chunks H pn s model max_chars w)) = sent w @ more \<and>
               filter is_plain more = []"
  proof (cases "range_from_zero (length s) (get_chunk_size_chars H pn)")
    case None
    then show ?thesis by (simp add: summarize_chunks_def)
  next
    case (Some starts)
    let ?chunks = "map (\<lambda>i. take (nat (get_chunk_size_chars H pn)) (drop i s)) starts"
    obtain a wa where cc: "compress_chunks H pn model ?chunks [] w = (a, wa)"
      by (cases "compress_chunks H pn model ?chunks [] w")
    obtain m1 where m1: "sent wa = sent w @ m1" "filter is_plain m1 = []"
      using only_compress_compress_chunks [of H pn model ?chunks "[]"] cc
      unfolding only_compress_def by (metis snd_conv)
    show ?thesis
    proof (cases a)
      case (Inl e)
      then show ?thesis using Some cc m1 by (simp add: summarize_chunks_def Let_def)
    next
      case (Inr summaries)
      obtain m2 where m2: "sent (snd (reduce_loop H pn model max_chars (join [NL, NL] summaries) 0 wa))
                             = sent wa @ m2" "filter is_plain m2 = []"
        using only_compress_reduce_loop [of H pn model max_chars "join [NL, NL] summaries" 0]
        unfolding only_compress_def by blast
      then show ?thesis
        using Inr Some cc m1 by (intro exI [of _ "m1 @ m2"]) (simp add: summarize_chunks_def Let_def)
    qed
  qed
qed

lemma respond_sent: "sent (snd (respond H P uc (y, w2))) = sent w2"
proof (cases y)
  case (Inl e)
  then show ?thesis by (simp add: respond_def)
next
  case (Inr t)
  show ?thesis
  proof (cases uc)
    case False
    with Inr show ?thesis by (simp add: respond_def logger_world)
  next
    case True
    obtain x w1 where st: "cache_store H P (json_of t) (logger (LogResponse (json_of t)) w2) = (x, w1)"
      by (cases "cache_store H P (json_of t) (logger (LogResponse (json_of t)) w2)")
    from cache_store_sent [OF st] show ?thesis
      using Inr True st by (simp add: respond_def logger_world)
  qed
qed

lemma respond_failure: "respond H P uc (Inl e, w2) = (Inl e, w2)"
  by (simp add: respond_def)

lemma openai_rejection:
  assumes openai: "provider_of H = ''openai''"
      and gate: "(if use_cache then cache_lookup P (logger (LogPrompt P) w)
                  else (Inr None, logger (LogPrompt P) w)) = (Inr None, wa)"
      and prep: "prepare_prompt H ''openai'' (model_of H) (get_limit_chars H ''openai'') P wa
                   = (Inr eff, wb)"
      and rej: "provider_call H (plain_request H eff) wb = (Inl x, wc)"
  shows "call_llm H P use_cache w =
           (if is_context_rejection x
            then respond H P use_cache
                   (case summarize_chunks H ''openai'' eff (model_of H)
                           (get_limit_chars H ''openai'' div 2) (logger LogContextRetry wc) of
                      (Inl e, wd) \<Rightarrow> (Inl e, wd)
                    | (Inr eff', wd) \<Rightarrow> provider_call H (plain_request H eff') wd)
            else (Inl x, wc))
       \<and> filter is_plain (drop (length (sent wb)) (sent (snd (call_llm H P use_cache w)))) =
           (if is_context_rejection x
            then (case fst (summarize_chunks H ''openai'' eff (model_of H)
                              (get_limit_chars H ''openai'' div 2) (logger LogContextRetry wc)) of
                    Inl e \<Rightarrow> [plain_request H eff]
                  | Inr eff' \<Rightarrow> [plain_request H eff, plain_request H eff'])
            else [plain_request H eff])"
proof -
  let ?max = "get_limit_chars H ''openai''"
  let ?retry = "case summarize_chunks H ''openai'' eff (model_of H) (?max div 2)
                       (logger LogContextRetry wc) of
                  (Inl e, wd) \<Rightarrow> (Inl e, wd)
                | (Inr eff', wd) \<Rightarrow> provider_call H (plain_request H eff') wd"
  have m: "model_of H = getenv_default H ''OPENAI_MODEL'' ''gpt-4o-mini''"
    using openai by (simp add: model_of_def)
  have prq: "\<And>e. plain_request H e = ChatCompletions (model_of H) [(User, e)]"
    using openai by (simp add: plain_request_def)
  have cl: "call_llm H P use_cache w = respond H P use_cache (ask_provider H P wa)"
    using gate by (simp add: call_llm_def)
  have ao: "ask_provider H P wa = call_openai H P wa"
    using openai provider_names(2) [of H] by (simp add: ask_provider_def)
  have co: "call_openai H P wa = (if is_context_rejection x then ?retry else (Inl x, wc))"
  proof (cases x)
    case (BadRequestError msg)
    then show ?thesis
      using prep rej
      by (simp add: call_openai_def Let_def m [symmetric] prq is_context_rejection_def
            split: prod.split sum.split)
  qed (use prep rej in \<open>simp_all add: call_openai_def Let_def m [symmetric] prq
                                       is_context_rejection_def\<close>)
  have swc: "sent wc = sent wb @ [plain_request H eff]"
    using provider_call_sent [of H "plain_request H eff" wb] rej by simp
  show ?thesis
  proof (cases "is_context_rejection x")
    case False
    have "call_llm H P use_cache w = (Inl x, wc)"
      using cl ao co False by (simp add: respond_failure)
    then show ?thesis using False swc by simp
  next
    case True
    obtain c wd where sm: "summarize_chunks H ''openai'' eff (model_of H) (?max div 2)
                             (logger LogContextRetry wc) = (c, wd)"
      by (cases "summarize_chunks H ''openai'' eff (model_of H) (?max div 2)
                   (logger LogContextRetry wc)")
    obtain more where more: "sent wd = sent wc @ more" "filter is_plain more = []"
      using only_compress_summarize_chunks [of H "''openai''" eff "model_of H" "?max div 2"] sm
      unfolding only_compress_def by (metis snd_conv logger_world(4))
    have first: "call_llm H P use_cache w = respond H P use_cache ?retry"
      using cl ao co True by simp
    have "filter is_plain (drop (length (sent wb)) (sent (snd (call_llm H P use_cache w)))) =
            (case c of Inl e \<Rightarrow> [plain_request H eff]
             | Inr eff' \<Rightarrow> [plain_request H eff, plain_request H eff'])"
    proof (cases c)
      case (Inl e)
      then have "sent (snd (call_llm H P use_cache w)) = sent wd"
        using first sm by (simp add: respond_failure)
      then show ?thesis using Inl more swc by simp
    next
      case (Inr eff')
      obtain y we where pc: "provider_call H (plain_request H eff') wd = (y, we)"
        by (cases "provider_call H (plain_request H eff') wd")
      have "sent we = sent wd @ [plain_request H eff']"
        using provider_call_sent [of H "plain_request H eff'" wd] pc by simp
      moreover have "sent (snd (call_llm H P use_cache w)) = sent we"
        using first sm Inr pc by (simp add: respond_sent)
      ultimately show ?thesis using Inr more swc by simp
    qed
    then show ?thesis using first True sm by simp
  qed
qed

lemma google_rejection:
  assumes google: "provider_of H = ''google''"
      and gate: "(if use_cache then cache_lookup P (logger (LogPrompt P) w)
                  else (Inr None, logger (LogPrompt P) w)) = (Inr None, wa)"
      and prep: "prepare_prompt H ''google'' (model_of H) (get_limit_chars H ''google'') P wa
                   = (Inr eff, wb)"
      and rej: "provider_call H (plain_request H eff) wb = (Inl x, wc)"
  shows "call_llm H P use_cache w = (Inl x, wc)"
    and "filter is_plain (drop (length (sent wb)) (sent (snd (call_llm H P use_cache w))))
           = [plain_request H eff]"
proof -
  have no: "provider_of H \<noteq> ''openai''" using google by simp
  have m: "model_of H = getenv_default H ''GEMINI_MODEL'' ''gemini-2.5-flash''"
    using no by (simp add: model_of_def)
  have prq: "\<And>e. plain_request H e = GenerateContent (model_of H) [e]"
    using no by (simp add: plain_request_def)
  have cl: "call_llm H P use_cache w = respond H P use_cache (ask_provider H P wa)"
    using gate by (simp add: call_llm_def)
  have ag: "ask_provider H P wa = call_google H P wa"
    using no provider_names(2) [of H] by (simp add: ask_provider_def)
  have cg: "call_google H P wa = (Inl x, wc)"
    using prep rej by (simp add: call_google_def Let_def m [symmetric] prq)
  show r: "call_llm H P use_cache w = (Inl x, wc)"
    using cl ag cg by (simp add: respond_failure)
  have "sent wc = sent wb @ [plain_request H eff]"
    using provider_call_sent [of H "plain_request H eff" wb] rej by simp
  then show "filter is_plain (drop (length (sent wb)) (sent (snd (call_llm H P use_cache w))))
           = [plain_request H eff]"
    using r by simp
qed

text \<open>
  What each branch does when the provider raises on the request that carries the
  (possibly compressed) prompt. With the openai provider and a \<open>BadRequestError\<close> that
  mentions the context length, the call runs one more compression of the prompt it had
  sent, at half the ceiling, and, if that compression completes, sends the result once;
  what that one request returns or raises is what the call returns or raises. In every
  other case, and always with the google provider, the exception leaves the call and
  no further request carrying a prompt is sent.
\<close>

lemma rejected_prompt_request:
  assumes gate: "(if use_cache then cache_lookup P (logger (LogPrompt P) w)
                  else (Inr None, logger (LogPrompt P) w)) = (Inr None, wa)"
      and prep: "prepare_prompt H (provider_of H) (model_of H) (get_limit_chars H (provider_of H)) P wa
                   = (Inr eff, wb)"
      and rej: "provider_call H (plain_request H eff) wb = (Inl x, wc)"
  shows "call_llm H P use_cache w =
           (if provider_of H = ''openai'' \<and> is_context_rejection x
            then respond H P use_cache
                   (case summarize_chunks H ''openai'' eff (model_of H)
                           (get_limit_chars H ''openai'' div 2) (logger LogContextRetry wc) of
                      (Inl e, wd) \<Rightarrow> (Inl e, wd)
                    | (Inr eff', wd) \<Rightarrow> provider_call H (plain_request H eff') wd)
            else (Inl x, wc))
       \<and> filter is_plain (drop (length (sent wb)) (sent (snd (call_llm H P use_cache w)))) =
           (if provider_of H = ''openai'' \<and> is_context_rejection x
            then (case fst (summarize_chunks H ''openai'' eff (model_of H)
                              (get_limit_chars H ''openai'' div 2) (logger LogContextRetry wc)) of
                    Inl e \<Rightarrow> [plain_request H eff]
                  | Inr eff' \<Rightarrow> [plain_request H eff, plain_request H eff'])
            else [plain_request H eff])"
proof (cases "provider_of H = ''openai''")
  case True
  have prep': "prepare_prompt H ''openai'' (model_of H) (get_limit_chars H ''openai'') P wa
                   = (Inr eff, wb)"
    using prep True by simp
  have c: "(provider_of H = ''openai'' \<and> is_context_rejection x) = is_context_rejection x"
    using True by simp
  show ?thesis
    unfolding c by (rule openai_rejection [OF True gate prep' rej])
next
  case False
  then have g: "provider_of H = ''google''" using provider_names(1) [of H] by simp
  have prep': "prepare_prompt H ''google'' (model_of H) (get_limit_chars H ''google'') P wa
                   = (Inr eff, wb)"
    using prep g by simp
  have c: "(provider_of H = ''openai'' \<and> is_context_rejection x) = False"
    using False by simp
  show ?thesis
    unfolding c if_False using google_rejection [OF g gate prep' rej] by (rule conjI)
qed

lemma lower_samples:
  "lower ''google'' = ''google''" "lower ''OpenAI'' = ''openai''" "lower ''openai'' = ''openai''"
  "lower ''Maximum Context Length exceeded'' = ''maximum context length exceeded''"
  "lower ''context length exceeded'' = ''context length exceeded''"
  by code_simp+

lemma upt_two: "[0..<(2::nat)] = [0, 1]"
  by (simp add: numeral_2_eq_2)

lemmas sample_defs =
  call_llm_def cache_lookup_def load_cache_def py_in_def py_getitem_def py_setitem_def
  respond_def ask_provider_def call_google_def call_openai_def prepare_prompt_def
  get_limit_chars_def get_chunk_size_chars_def getenv_default_def provider_call_def
  logger_def cache_store_def save_cache_def json_of_def scripted_host_def sample_world_def
  sample_int_def Let_def lower_samples upt_two
  summarize_chunks_def range_from_zero_def compress_request_def
  reduce_loop.simps strip_def py_isspace_def NL_def
  compressing_host_def verbose_host_def openai_host_def
  provider_of_def model_of_def plain_request_def chunk_request_def further_request_def
  context_exceeded_def is_context_rejection_def is_plain_def

text \<open>
  The claim as stated fails for a provider whose summaries do not shrink: with a ceiling
  of 2 and a prompt of 3 characters, after the chunk and three more rounds the prompt
  sent has 4 characters.
\<close>

theorem verbose_summaries_exceed_ceiling_counterexample:
  "get_limit_chars verbose_host ''google'' = 2
   \<and> int (length ''abc'') = get_limit_chars verbose_host ''google'' + 1
   \<and> fst (call_llm verbose_host ''abc'' False sample_world) = Inr (JString ''xxxx'')
   \<and> length (sent (snd (call_llm verbose_host ''abc'' False sample_world))) = 5
   \<and> last (sent (snd (call_llm verbose_host ''abc'' False sample_world)))
        = GenerateContent ''gemini-2.5-flash'' [''xxxx'']
   \<and> \<not> int (length ''xxxx'') \<le> get_limit_chars verbose_host ''google''"
  by (simp add: sample_defs)

lemma compressing_run:
  "fst (call_llm compressing_host ''abcdefgh'' False sample_world) = Inr (JString ''answer'')
   \<and> sent (snd (call_llm compressing_host ''abcdefgh'' False sample_world)) =
       [chunk_request compressing_host ''abcd'', chunk_request compressing_host ''efgh'',
        further_request compressing_host (''s1'' @ [NL, NL] @ ''s2''),
        plain_request compressing_host ''s'']"
  by (simp add: sample_defs)

lemma openai_run:
  "fst (call_llm openai_host ''ping'' False sample_world) = Inr (JString ''answer'')
   \<and> sent (snd (call_llm openai_host ''ping'' False sample_world)) =
       [plain_request openai_host ''ping'', chunk_request openai_host ''ping'',
        plain_request openai_host ''sum'']"
  by (simp add: sample_defs)

text \<open>
  C3. The retry is there for one provider only. The same rejection, a
  \<open>BadRequestError\<close> that mentions the context length raised on the first request for
  the prompt \<open>ping\<close>, is answered in two ways. With \<open>LLM_PROVIDER\<close> unset, the google
  branch, it leaves the call after that one request: nothing is compressed, nothing is
  sent again. With \<open>LLM_PROVIDER=openai\<close> the prompt is compressed once more and sent
  again, and the call returns the answer. And with openai, too, a rejection of a
  compression request, which is sent before the guarded request, leaves the call at
  once.
\<close>

theorem context_rejection_is_not_retried_by_google:
  "call_llm (scripted_host [] [] (Inl (BadRequestError ''context length exceeded''))) ''ping'' False
       sample_world =
     (Inl (BadRequestError ''context length exceeded''),
      \<lparr>disk = Missing, write_fault = None, llm = 1,
       sent = [GenerateContent ''gemini-2.5-flash'' [''ping'']],
       log = [LogPrompt ''ping'']\<rparr>)
   \<and> context_exceeded ''context length exceeded''
   \<and> call_llm (scripted_host [(''LLM_PROVIDER'', ''openai'')]
                 [Inl (BadRequestError ''context length exceeded''), Inr (Some ''sum''),
                  Inr (Some ''answer'')]
                 (Inl (ProviderError ''offline''))) ''ping'' False sample_world =
     (Inr (JString ''answer''),
      \<lparr>disk = Missing, write_fault = None, llm = 3,
       sent = [ChatCompletions ''gpt-4o-mini'' [(User, ''ping'')],
               ChatCompletions ''gpt-4o-mini''
                 [(System, instruction), (User, ''Compress this chunk:'' @ [NL] @ ''ping'')],
               ChatCompletions ''gpt-4o-mini'' [(User, ''sum'')]],
       log = [LogPrompt ''ping'', LogContextRetry, LogResponse (JString ''answer'')]\<rparr>)
   \<and> call_llm (scripted_host [(''LLM_PROVIDER'', ''openai''), (''LLM_MAX_PROMPT_CHARS'', ''2'')] []
                 (Inl (BadRequestError ''context length exceeded''))) ''ping'' False sample_world =
     (Inl (BadRequestError ''context length exceeded''),
      \<lparr>disk = Missing, write_fault = None, llm = 1,
       sent = [ChatCompletions ''gpt-4o-mini''
                 [(System, instruction), (User, ''Compress this chunk:'' @ [NL] @ ''ping'')]],
       log = [LogPrompt ''ping'', LogCompressing ''openai'' 4 2]\<rparr>)"
  by (simp add: sample_defs)

theorem long_prompt_is_compressed_in_bounded_rounds_witness:
  "get_limit_chars compressing_host (provider_of compressing_host) < int (length ''abcdefgh'')
   \<and> 0 < get_chunk_size_chars compressing_host (provider_of compressing_host)
   \<and> fst (call_llm compressing_host ''abcdefgh'' False sample_world) = Inr (JString ''answer'')
   \<and> sent (snd (call_llm compressing_host ''abcdefgh'' False sample_world)) \<noteq> sent sample_world
   \<and> (\<exists>summaries texts final rest.
           sent (snd (call_llm compressing_host ''abcdefgh'' False sample_world)) = sent sample_world @
             map (chunk_request compressing_host)
               (slices (nat (get_chunk_size_chars compressing_host (provider_of compressing_host)))
                  ''abcdefgh'') @
             map (further_request compressing_host) texts @
             [plain_request compressing_host final] @ rest \<and>
           concat (slices (nat (get_chunk_size_chars compressing_host (provider_of compressing_host)))
                     ''abcdefgh'') = ''abcdefgh'' \<and>
           fst (compress_chunks compressing_host (provider_of compressing_host)
                  (model_of compressing_host)
                  (slices (nat (get_chunk_size_chars compressing_host (provider_of compressing_host)))
                     ''abcdefgh'') [] sample_world) = Inr summaries \<and>
           length summaries =
             length (slices (nat (get_chunk_size_chars compressing_host (provider_of compressing_host)))
                       ''abcdefgh'') \<and>
           hd (texts @ [final]) = join [NL, NL] summaries \<and>
           length texts \<le> 3 \<and>
           (\<forall>t \<in> set texts.
              get_limit_chars compressing_host (provider_of compressing_host) < int (length t)) \<and>
           (int (length final) \<le> get_limit_chars compressing_host (provider_of compressing_host) \<or>
            length texts = 3) \<and>
           (provider_of compressing_host = ''google'' \<longrightarrow> rest = []))"
proof -
  have long: "get_limit_chars compressing_host (provider_of compressing_host) < int (length ''abcdefgh'')"
    by (simp add: sample_defs)
  have cs: "0 < get_chunk_size_chars compressing_host (provider_of compressing_host)"
    by (simp add: sample_defs)
  have f: "fst (call_llm compressing_host ''abcdefgh'' False sample_world) = Inr (JString ''answer'')"
    using compressing_run by simp
  have run: "call_llm compressing_host ''abcdefgh'' False sample_world =
               (Inr (JString ''answer''), snd (call_llm compressing_host ''abcdefgh'' False sample_world))"
    using f by (metis prod.collapse)
  have asked: "sent (snd (call_llm compressing_host ''abcdefgh'' False sample_world)) \<noteq> sent sample_world"
    using compressing_run by (simp add: sample_world_def)
  note concl = long_prompt_is_compressed_in_bounded_rounds [OF long cs run asked]
  show ?thesis
    by (intro conjI long cs f asked concl)
qed

lemma rejected_prompt_request_sample:
  "provider_of openai_host = ''openai''
   \<and> is_context_rejection (BadRequestError ''Maximum Context Length exceeded'')
   \<and> fst (call_llm openai_host ''ping'' False sample_world) = Inr (JString ''answer'')
   \<and> filter is_plain (sent (snd (call_llm openai_host ''ping'' False sample_world))) =
       [plain_request openai_host ''ping'', plain_request openai_host ''sum'']"
proof -
  let ?wa = "logger (LogPrompt ''ping'') sample_world"
  let ?wc = "snd (provider_call openai_host (plain_request openai_host ''ping'') ?wa)"
  have gate: "(if False then cache_lookup ''ping'' (logger (LogPrompt ''ping'') sample_world)
               else (Inr None, logger (LogPrompt ''ping'') sample_world)) = (Inr None, ?wa)"
    by simp
  have prep: "prepare_prompt openai_host (provider_of openai_host) (model_of openai_host)
                (get_limit_chars openai_host (provider_of openai_host)) ''ping'' ?wa
                = (Inr ''ping'', ?wa)"
    by (simp add: sample_defs)
  have rej: "provider_call openai_host (plain_request openai_host ''ping'') ?wa =
               (Inl (BadRequestError ''Maximum Context Length exceeded''), ?wc)"
    by (simp add: sample_defs)
  have o: "provider_of openai_host = ''openai''" by (simp add: sample_defs)
  have c: "is_context_rejection (BadRequestError ''Maximum Context Length exceeded'')"
    by (simp add: sample_defs)
  have s: "length (sent ?wa) = 0" by (simp add: sample_defs)
  have f: "fst (call_llm openai_host ''ping'' False sample_world) = Inr (JString ''answer'')"
    using openai_run by simp
  have sm: "fst (summarize_chunks openai_host ''openai'' ''ping'' (model_of openai_host)
                   (get_limit_chars openai_host ''openai'' div 2) (logger LogContextRetry ?wc))
              = Inr ''sum''"
    by (simp add: sample_defs)
  note T = rejected_prompt_request [OF gate prep rej, THEN conjunct2]
  have p: "filter is_plain (sent (snd (call_llm openai_host ''ping'' False sample_world))) =
             [plain_request openai_host ''ping'', plain_request openai_host ''sum'']"
    using T unfolding s drop_0 by (simp add: o c sm)
  show ?thesis
    by (intro conjI o c f p)
qed

end
